theory Spec2Isabelle
  imports Complex_Main "HOL-Library.AList" "HOL-Library.Multiset" "HOL-Library.Log_Nat"
begin

section \<open>Data model\<close>

text \<open>
  The layout engine of \<^verbatim>\<open>layout.js\<close> reads a graph \<^verbatim>\<open>{ nodes, edges }\<close>.
  Of a node it reads \<^verbatim>\<open>id\<close> and \<^verbatim>\<open>type\<close>, of an edge \<^verbatim>\<open>source\<close> and
  \<^verbatim>\<open>target\<close>. Node identifiers are kept polymorphic (the parsers produce strings).
  Any further field of the graph object (\<^verbatim>\<open>meta\<close>) lives in the record extension.
\<close>

record 'a node =
  node_id :: 'a
  node_type :: string

record 'a edge =
  source :: 'a
  target :: 'a

record 'a graph =
  nodes :: "'a node list"
  edges :: "'a edge list"

text \<open>
  A JavaScript \<^verbatim>\<open>Map\<close> iterates in the order of first insertion and \<^verbatim>\<open>set\<close> on a
  present key keeps its place. An association list with \<^const>\<open>AList.update\<close> has exactly
  this behaviour: \<^term>\<open>map_of m k\<close> is \<^verbatim>\<open>m.get(k)\<close>, \<^term>\<open>map_of m k \<noteq> None\<close> is
  \<^verbatim>\<open>m.has(k)\<close>.
\<close>

type_synonym ('k, 'v) js_map = "('k \<times> 'v) list"

definition new_Map :: "('k \<times> 'v) list \<Rightarrow> ('k, 'v) js_map" where
  "new_Map entries = foldl (\<lambda>m (k, v). AList.update k v m) [] entries"

text \<open>
  Two ways of leaving the model are values of \<open>failure\<close>: \<open>TypeError\<close> where JavaScript
  throws (a property read on \<^verbatim>\<open>undefined\<close>), and \<open>NotANumber\<close> where
  \<^verbatim>\<open>undefined\<close> would enter arithmetic and JavaScript would carry on with \<^verbatim>\<open>NaN\<close>.
\<close>

datatype failure = TypeError | NotANumber

section \<open>Numbers\<close>

text \<open>
  A JavaScript number is an IEEE 754 double. A finite double is taken as the rational it
  denotes, and every arithmetic operation of the source on values that need not be small
  integers is the exact operation followed by \<open>fl\<close>, rounding to the nearest double with
  ties to the even significand: for \<open>2\<^sup>e \<le> |x| < 2\<^sup>e\<^sup>+\<^sup>1\<close> the doubles around \<open>x\<close> are the
  multiples of \<open>2\<^sup>e\<^sup>-\<^sup>5\<^sup>2\<close>. The exponent is not bounded here: a JavaScript array has fewer
  than \<open>2\<^sup>3\<^sup>2\<close> elements, which keeps every value of the layout far inside the range of
  normal doubles. Layers, in-degrees, list indices and the products and sums formed of them
  and the constants (\<^verbatim>\<open>x\<close>, \<^verbatim>\<open>canvasW\<close>) are integers below \<open>2\<^sup>5\<^sup>3\<close>, on which double
  arithmetic is exact.
\<close>

definition ilog2 :: "rat \<Rightarrow> int" where
  "ilog2 x = (if 1 \<le> x then bitlen \<lfloor>x\<rfloor> - 1 else - bitlen (\<lceil>1 / x\<rceil> - 1))"

definition round_even :: "rat \<Rightarrow> int" where
  "round_even q =
     (let n = \<lfloor>q\<rfloor>; d = q - of_int n
      in if d < 1 / 2 then n else if 1 / 2 < d then n + 1 else if even n then n else n + 1)"

definition fl :: "rat \<Rightarrow> rat" where
  "fl x = (if x = 0 then 0
           else (let u = 2 powi (ilog2 \<bar>x\<bar> - 52) in of_int (round_even (x / u)) * u))"

text \<open>
  The numbers that are not finite, as they arise in \<^verbatim>\<open>baryPos\<close>, in the difference of two
  barycenters and in \<^verbatim>\<open>Math.max\<close>.
\<close>

datatype num = Num rat | Infinity | NegInfinity | NaN

fun js_sub :: "num \<Rightarrow> num \<Rightarrow> num" where
  "js_sub (Num a) (Num b) = Num (fl (a - b))"
| "js_sub NaN _ = NaN"
| "js_sub _ NaN = NaN"
| "js_sub Infinity Infinity = NaN"
| "js_sub NegInfinity NegInfinity = NaN"
| "js_sub Infinity _ = Infinity"
| "js_sub NegInfinity _ = NegInfinity"
| "js_sub (Num a) Infinity = NegInfinity"
| "js_sub (Num a) NegInfinity = Infinity"

fun js_add :: "num \<Rightarrow> num \<Rightarrow> num" where
  "js_add (Num a) (Num b) = Num (fl (a + b))"
| "js_add NaN _ = NaN"
| "js_add _ NaN = NaN"
| "js_add Infinity NegInfinity = NaN"
| "js_add NegInfinity Infinity = NaN"
| "js_add Infinity _ = Infinity"
| "js_add NegInfinity _ = NegInfinity"
| "js_add (Num a) Infinity = Infinity"
| "js_add (Num a) NegInfinity = NegInfinity"

text \<open>
  \<^verbatim>\<open>Math.max(...values)\<close>: \<^verbatim>\<open>-Infinity\<close> without arguments, \<^verbatim>\<open>NaN\<close> as soon as one
  argument is \<^verbatim>\<open>NaN\<close>, the largest argument otherwise.
\<close>

fun js_max :: "num \<Rightarrow> num \<Rightarrow> num" where
  "js_max NaN _ = NaN"
| "js_max _ NaN = NaN"
| "js_max Infinity _ = Infinity"
| "js_max _ Infinity = Infinity"
| "js_max NegInfinity y = y"
| "js_max x NegInfinity = x"
| "js_max (Num a) (Num b) = Num (max a b)"

definition Math_max :: "num list \<Rightarrow> num" where
  "Math_max vs = foldl js_max NegInfinity vs"

text \<open>
  What \<^verbatim>\<open>NODE_HEIGHTS[type] ?? 124\<close> can be: a number, or the member of
  \<^verbatim>\<open>Object.prototype\<close> of the given name, which the object literal \<^verbatim>\<open>NODE_HEIGHTS\<close>
  inherits (a function, or \<^verbatim>\<open>Object.prototype\<close> itself for \<^verbatim>\<open>__proto__\<close>).
\<close>

datatype js_value = Number rat | Member string

record position =
  pos_x :: rat
  pos_y :: rat
  pos_w :: rat
  pos_h :: js_value

text \<open>
  The object returned; \<open>None\<close> is a property that the object does not have
  (\<^verbatim>\<open>undefined\<close> when read).
\<close>

record 'a layout =
  positions :: "('a, position) js_map"
  layerNodes :: "'a list list"
  maxLayer :: int
  canvasW :: "rat option"
  canvasH :: "num option"

section \<open>Constants\<close>

definition NODE_W :: rat where "NODE_W = 250"
definition H_STEP :: rat where "H_STEP = 330"
definition V_STEP :: rat where "V_STEP = 220"
definition PAD :: rat where "PAD = 60"

definition NODE_HEIGHTS :: "(string \<times> rat) list" where
  "NODE_HEIGHTS = [(''incast'', 200), (''outcast'', 200), (''op'', 148), (''tensor'', 200)]"

text \<open>
  The names of the properties of \<^verbatim>\<open>Object.prototype\<close>. None of them is \<^verbatim>\<open>null\<close> or
  \<^verbatim>\<open>undefined\<close>, so \<^verbatim>\<open>??\<close> keeps each of them.
\<close>

definition Object_prototype :: "string list" where
  "Object_prototype =
     [''constructor'', ''__defineGetter__'', ''__defineSetter__'', ''hasOwnProperty'',
      ''__lookupGetter__'', ''__lookupSetter__'', ''isPrototypeOf'', ''propertyIsEnumerable'',
      ''toString'', ''valueOf'', ''__proto__'', ''toLocaleString'']"

text \<open>
  \<^verbatim>\<open>NODE_HEIGHTS[type] ?? 124\<close>. The argument is the property key that \<^verbatim>\<open>type\<close>
  converts to, \<open>None\<close> for \<^verbatim>\<open>undefined\<close> (the key \<^verbatim>\<open>"undefined"\<close>, which is no property).
  The lookup finds the four own properties first and then those of the prototype.
\<close>

definition getNodeHeight :: "string option \<Rightarrow> js_value" where
  "getNodeHeight t =
     (case t of
        None \<Rightarrow> Number 124
      | Some s \<Rightarrow>
         (case map_of NODE_HEIGHTS s of
            Some v \<Rightarrow> Number v
          | None \<Rightarrow> if s \<in> set Object_prototype then Member s else Number 124))"

section \<open>Adjacency\<close>

text \<open>
  \<^verbatim>\<open>if (pred.has(e.target) && succ.has(e.source)) { pred.get(e.target).push(e.source);
  succ.get(e.source).push(e.target); }\<close>
\<close>

definition add_edge ::
  "('a, 'a list) js_map \<times> ('a, 'a list) js_map \<Rightarrow> 'a edge
     \<Rightarrow> ('a, 'a list) js_map \<times> ('a, 'a list) js_map" where
  "add_edge adj e =
     (case adj of (pred, succ) \<Rightarrow>
        (case map_of pred (target e) of
           None \<Rightarrow> (pred, succ)
         | Some ps \<Rightarrow>
            (case map_of succ (source e) of
               None \<Rightarrow> (pred, succ)
             | Some ss \<Rightarrow>
                (AList.update (target e) (ps @ [source e]) pred,
                 AList.update (source e) (ss @ [target e]) succ))))"

definition build_adjacency ::
  "'a node list \<Rightarrow> 'a edge list \<Rightarrow> ('a, 'a list) js_map \<times> ('a, 'a list) js_map" where
  "build_adjacency ns es =
     foldl add_edge
       (new_Map (map (\<lambda>n. (node_id n, [])) ns), new_Map (map (\<lambda>n. (node_id n, [])) ns)) es"

section \<open>Layer assignment\<close>

record 'a kahn =
  queue :: "'a list"
  layer :: "('a, int) js_map"
  inDeg :: "('a, int) js_map"

text \<open>
  The state before the loop. \<^verbatim>\<open>pred.get(n.id).length\<close> throws when the key is absent.
\<close>

fun in_degrees :: "('a, 'a list) js_map \<Rightarrow> 'a node list \<Rightarrow> failure + ('a \<times> int) list" where
  "in_degrees pred [] = Inr []"
| "in_degrees pred (n # ns) =
     (case map_of pred (node_id n) of
        None \<Rightarrow> Inl TypeError
      | Some ps \<Rightarrow>
         (case in_degrees pred ns of
            Inl e \<Rightarrow> Inl e
          | Inr rest \<Rightarrow> Inr ((node_id n, int (length ps)) # rest)))"

definition init_kahn :: "'a node list \<Rightarrow> ('a, 'a list) js_map \<Rightarrow> failure + 'a kahn" where
  "init_kahn ns pred =
     (case in_degrees pred ns of
        Inl e \<Rightarrow> Inl e
      | Inr entries \<Rightarrow>
         (let inDeg0 = new_Map entries;
              queue0 = map node_id (filter (\<lambda>n. map_of inDeg0 (node_id n) = Some 0) ns);
              layer0 = foldl (\<lambda>m k. AList.update k 0 m) [] queue0
          in Inr \<lparr>queue = queue0, layer = layer0, inDeg = inDeg0\<rparr>))"

text \<open>
  The body of \<^verbatim>\<open>for (const nextId of succ.get(id))\<close>. When \<^verbatim>\<open>inDeg\<close> has no entry for
  \<^verbatim>\<open>nextId\<close> the source stores \<^verbatim>\<open>NaN\<close>, which never equals 0 and stays \<^verbatim>\<open>NaN\<close>;
  the model leaves the entry absent, which is treated the same way on every later read.
\<close>

definition relax :: "int \<Rightarrow> 'a kahn \<Rightarrow> 'a \<Rightarrow> 'a kahn" where
  "relax currentLayer st nextId =
     (let proposed = currentLayer + 1;
          layer' = (case map_of (layer st) nextId of
                      None \<Rightarrow> AList.update nextId proposed (layer st)
                    | Some l \<Rightarrow> if l < proposed then AList.update nextId proposed (layer st)
                               else layer st)
      in case map_of (inDeg st) nextId of
           None \<Rightarrow> st\<lparr>layer := layer'\<rparr>
         | Some d \<Rightarrow>
            \<lparr>queue = (if d - 1 = 0 then queue st @ [nextId] else queue st),
             layer = layer',
             inDeg = AList.update nextId (d - 1) (inDeg st)\<rparr>)"

definition pending :: "'a kahn \<Rightarrow> nat" where
  "pending st = length (filter (\<lambda>kd. 0 < snd kd) (inDeg st)) + length (queue st)"

lemma pending_update:
  "map_of al k = Some d \<Longrightarrow>
   length (filter (\<lambda>kd. 0 < snd kd) (AList.update k (d - 1) al)) +
     (if d - 1 = 0 then 1 else 0)
   \<le> length (filter (\<lambda>kd. 0 < snd kd) al)"
  for al :: "('a \<times> int) list"
  by (induction al) (auto split: if_splits)

lemma pending_relax: "pending (relax c st n) \<le> pending st"
proof (cases "map_of (inDeg st) n")
  case None
  then show ?thesis by (simp add: relax_def pending_def Let_def)
next
  case (Some d)
  from pending_update [OF Some] show ?thesis
    using Some by (auto simp: relax_def pending_def Let_def split: if_splits)
qed

lemma pending_foldl_relax: "pending (foldl (relax c) st ns) \<le> pending st"
proof (induction ns arbitrary: st)
  case Nil
  show ?case by simp
next
  case (Cons n ns)
  have "pending (foldl (relax c) (relax c st n) ns) \<le> pending (relax c st n)"
    by (rule Cons.IH)
  also have "\<dots> \<le> pending st" by (rule pending_relax)
  finally show ?case by simp
qed

text \<open>
  \<^verbatim>\<open>while (head < queue.length) { const id = queue[head++]; ... }\<close>. Reading the layer of
  a queued id that has none would give \<^verbatim>\<open>undefined + 1\<close>; iterating over an absent
  successor list throws.
\<close>

function bfs :: "('a, 'a list) js_map \<Rightarrow> nat \<Rightarrow> 'a kahn \<Rightarrow> failure + 'a kahn" where
  "bfs succ head st =
     (if head < length (queue st) then
        (case map_of (layer st) (queue st ! head) of
           None \<Rightarrow> Inl NotANumber
         | Some currentLayer \<Rightarrow>
            (case map_of succ (queue st ! head) of
               None \<Rightarrow> Inl TypeError
             | Some nexts \<Rightarrow> bfs succ (head + 1) (foldl (relax currentLayer) st nexts)))
      else Inr st)"
  by pat_completeness auto
termination
proof (relation "measure (\<lambda>(succ, head, st). pending st - head)")
  show "wf (measure (\<lambda>(succ, head, st). pending st - head))" by simp
next
  fix succ :: "('a, 'a list) js_map" and head :: nat and st :: "'a kahn"
    and currentLayer :: int and nexts :: "'a list"
  assume "head < length (queue st)"
  then have "head < pending st" by (simp add: pending_def)
  moreover have "pending (foldl (relax currentLayer) st nexts) \<le> pending st"
    by (rule pending_foldl_relax)
  ultimately show "((succ, head + 1, foldl (relax currentLayer) st nexts), (succ, head, st))
      \<in> measure (\<lambda>(succ, head, st). pending st - head)"
    by simp
qed

declare bfs.simps [simp del]


text \<open>
  \<^verbatim>\<open>for (const n of nodes) { if (!layer.has(n.id)) layer.set(n.id, 0); }\<close>
\<close>

definition not_reached :: "'a node list \<Rightarrow> ('a, int) js_map \<Rightarrow> ('a, int) js_map" where
  "not_reached ns lay =
     foldl (\<lambda>m n. if map_of m (node_id n) = None then AList.update (node_id n) 0 m else m) lay ns"

definition layer_assignment ::
  "'a node list \<Rightarrow> ('a, 'a list) js_map \<Rightarrow> ('a, 'a list) js_map \<Rightarrow> failure + ('a, int) js_map" where
  "layer_assignment ns pred succ =
     (case init_kahn ns pred of
        Inl e \<Rightarrow> Inl e
      | Inr st0 \<Rightarrow>
         (case bfs succ 0 st0 of
            Inl e \<Rightarrow> Inl e
          | Inr st \<Rightarrow> Inr (not_reached ns (layer st))))"

section \<open>Grouping by layer\<close>

text \<open>
  \<^verbatim>\<open>layer.forEach((l, id) => layerNodes[l].push(id))\<close> on an array of \<^verbatim>\<open>maxLayer + 1\<close>
  empty lists; an index outside the array reads \<^verbatim>\<open>undefined\<close> and the push throws.
\<close>

definition push_layer :: "'a list list \<Rightarrow> 'a \<times> int \<Rightarrow> failure + 'a list list" where
  "push_layer lns entry =
     (case entry of (k, l) \<Rightarrow>
        if 0 \<le> l \<and> nat l < length lns then Inr (lns[nat l := lns ! nat l @ [k]])
        else Inl TypeError)"

fun group_entries :: "'a list list \<Rightarrow> ('a \<times> int) list \<Rightarrow> failure + 'a list list" where
  "group_entries lns [] = Inr lns"
| "group_entries lns (entry # rest) =
     (case push_layer lns entry of
        Inl e \<Rightarrow> Inl e
      | Inr lns' \<Rightarrow> group_entries lns' rest)"

definition group_by_layer :: "int \<Rightarrow> ('a, int) js_map \<Rightarrow> failure + 'a list list" where
  "group_by_layer maxL lay = group_entries (replicate (nat (maxL + 1)) []) lay"

section \<open>Crossing minimization\<close>

text \<open>
  The sort reads the sign of the difference of two barycenters.
\<close>

fun positive :: "num \<Rightarrow> bool" where
  "positive (Num a) = (0 < a)"
| "positive Infinity = True"
| "positive NegInfinity = False"
| "positive NaN = False"

text \<open>
  \<^verbatim>\<open>Array.prototype.sort(comparefn)\<close> is a built-in: ECMAScript requires it to be stable
  and reads a \<^verbatim>\<open>NaN\<close> returned by the comparison as \<open>+0\<close>. It is modelled by insertion
  from the right: an element moves behind exactly those it compares strictly greater to.
\<close>

fun insert_sorted :: "('a \<Rightarrow> 'a \<Rightarrow> num) \<Rightarrow> 'a \<Rightarrow> 'a list \<Rightarrow> 'a list" where
  "insert_sorted cmp a [] = [a]"
| "insert_sorted cmp a (b # bs) =
     (if positive (cmp a b) then b # insert_sorted cmp a bs else a # b # bs)"

definition js_sort :: "('a \<Rightarrow> 'a \<Rightarrow> num) \<Rightarrow> 'a list \<Rightarrow> 'a list" where
  "js_sort cmp xs = foldr (insert_sorted cmp) xs []"

definition baryPos :: "'a \<Rightarrow> ('a, 'a list) js_map \<Rightarrow> ('a, nat) js_map \<Rightarrow> num" where
  "baryPos nodeId neighbors prevPositions =
     (let nbrs = (case map_of neighbors nodeId of Some ns \<Rightarrow> ns | None \<Rightarrow> [])
      in if length nbrs = 0 then Infinity
         else
           (case foldl (\<lambda>sc nid. case map_of prevPositions nid of
                                   Some p \<Rightarrow> (fl (fst sc + of_nat p), snd sc + 1)
                                 | None \<Rightarrow> sc) (0, 0 :: nat) nbrs of
              (acc, cnt) \<Rightarrow> if 0 < cnt then Num (fl (acc / of_nat cnt)) else Infinity))"

text \<open>\<^verbatim>\<open>new Map(ids.map((id, i) => [id, i]))\<close>\<close>

definition index_Map :: "'a list \<Rightarrow> ('a, nat) js_map" where
  "index_Map ids = new_Map (zip ids [0..<length ids])"

text \<open>
  One layer of one sweep: \<^verbatim>\<open>layerNodes[l].sort((a, b) => baryPos(a, nb, pos) -
  baryPos(b, nb, pos))\<close> with \<^verbatim>\<open>pos\<close> the index map of the adjacent layer. The map
  \<^verbatim>\<open>posInLayer\<close> of the source is written after each sort and never read; it is left out.
\<close>

definition sort_layer :: "('a, 'a list) js_map \<Rightarrow> 'a list \<Rightarrow> 'a list \<Rightarrow> 'a list" where
  "sort_layer neighbors adjacent ids =
     (let pos = index_Map adjacent
      in js_sort (\<lambda>a b. js_sub (baryPos a neighbors pos) (baryPos b neighbors pos)) ids)"

text \<open>\<^verbatim>\<open>for (let l = 1; l <= maxLayer; l++)\<close> and \<^verbatim>\<open>for (let l = maxLayer - 1; l >= 0; l--)\<close>\<close>

definition forward_pass :: "('a, 'a list) js_map \<Rightarrow> int \<Rightarrow> 'a list list \<Rightarrow> 'a list list" where
  "forward_pass pred maxL lns =
     foldl (\<lambda>ls l. ls[l := sort_layer pred (ls ! (l - 1)) (ls ! l)]) lns [1..<nat (maxL + 1)]"

definition backward_pass :: "('a, 'a list) js_map \<Rightarrow> int \<Rightarrow> 'a list list \<Rightarrow> 'a list list" where
  "backward_pass succ maxL lns =
     foldl (\<lambda>ls l. ls[l := sort_layer succ (ls ! (l + 1)) (ls ! l)]) lns (rev [0..<nat maxL])"

definition crossing_minimization ::
  "('a, 'a list) js_map \<Rightarrow> ('a, 'a list) js_map \<Rightarrow> int \<Rightarrow> 'a list list \<Rightarrow> 'a list list" where
  "crossing_minimization pred succ maxL lns =
     forward_pass pred maxL (backward_pass succ maxL (forward_pass pred maxL lns))"

section \<open>Coordinates\<close>

text \<open>
  The y values of those ids that \<^verbatim>\<open>nodeY\<close> has:
  \<^verbatim>\<open>ids.filter(p => nodeY.has(p))\<close> followed by \<^verbatim>\<open>nodeY.get(p)\<close> in the reduce.
  \<open>average\<close> is \<^verbatim>\<open>ys.reduce((s, p) => s + p, 0) / ys.length\<close>: every addition and the
  division round.
\<close>

definition placed :: "('a, rat) js_map \<Rightarrow> 'a list \<Rightarrow> rat list" where
  "placed nodeY ids = List.map_filter (map_of nodeY) ids"

definition average :: "rat list \<Rightarrow> rat" where
  "average ys = fl (foldl (\<lambda>s v. fl (s + v)) 0 ys / of_nat (length ys))"

definition place_node ::
  "('a, 'a list) js_map \<Rightarrow> ('a, rat) js_map \<times> rat \<Rightarrow> 'a \<Rightarrow> ('a, rat) js_map \<times> rat" where
  "place_node pred st k =
     (case st of (nodeY, cursor) \<Rightarrow>
        (let placedPreds = placed nodeY (case map_of pred k of Some ps \<Rightarrow> ps | None \<Rightarrow> []);
             ideal = (if 0 < length placedPreds then Some (average placedPreds) else None);
             v = (case ideal of Some i \<Rightarrow> max cursor i | None \<Rightarrow> cursor)
         in (AList.update k v nodeY, fl (v + V_STEP))))"

definition place_layer :: "('a, 'a list) js_map \<Rightarrow> ('a, rat) js_map \<Rightarrow> 'a list \<Rightarrow> ('a, rat) js_map" where
  "place_layer pred nodeY ids = fst (foldl (place_node pred) (nodeY, PAD) ids)"

definition assign_y :: "('a, 'a list) js_map \<Rightarrow> int \<Rightarrow> 'a list list \<Rightarrow> ('a, rat) js_map" where
  "assign_y pred maxL lns =
     foldl (\<lambda>nodeY l. place_layer pred nodeY (lns ! l)) [] [0..<nat (maxL + 1)]"

text \<open>
  The second pass. \<open>ceiling_y\<close> (the source's \<^verbatim>\<open>ceiling\<close>) is \<open>None\<close> for
  \<^verbatim>\<open>Infinity\<close>. A node without an entry in \<^verbatim>\<open>nodeY\<close> would bring \<^verbatim>\<open>undefined\<close>
  into the comparison and into \<^verbatim>\<open>ceiling\<close>.
\<close>

definition pull_node ::
  "('a, 'a list) js_map \<Rightarrow> ('a, rat) js_map \<times> rat option \<Rightarrow> 'a
     \<Rightarrow> failure + ('a, rat) js_map \<times> rat option" where
  "pull_node succ st k =
     (case st of (nodeY, ceiling_y) \<Rightarrow>
        (case map_of nodeY k of
           None \<Rightarrow> Inl NotANumber
         | Some v \<Rightarrow>
            (let placedSuccs = placed nodeY (case map_of succ k of Some ss \<Rightarrow> ss | None \<Rightarrow> []);
                 nodeY' =
                   (if 0 < length placedSuccs then
                      (let ideal = average placedSuccs;
                           maxY = (case ceiling_y of None \<Rightarrow> ideal
                                   | Some c \<Rightarrow> min ideal (fl (c - V_STEP)))
                       in if v < maxY then nodeY
                          else AList.update k (max v (if maxY < PAD then PAD else maxY)) nodeY)
                    else nodeY)
             in Inr (nodeY', map_of nodeY' k))))"

fun pull_nodes ::
  "('a, 'a list) js_map \<Rightarrow> ('a, rat) js_map \<times> rat option \<Rightarrow> 'a list
     \<Rightarrow> failure + ('a, rat) js_map \<times> rat option" where
  "pull_nodes succ st [] = Inr st"
| "pull_nodes succ st (k # ks) =
     (case pull_node succ st k of
        Inl e \<Rightarrow> Inl e
      | Inr st' \<Rightarrow> pull_nodes succ st' ks)"

definition pull_layer ::
  "('a, 'a list) js_map \<Rightarrow> ('a, rat) js_map \<Rightarrow> 'a list \<Rightarrow> failure + ('a, rat) js_map" where
  "pull_layer succ nodeY ids =
     (case pull_nodes succ (nodeY, None) (rev ids) of
        Inl e \<Rightarrow> Inl e
      | Inr st \<Rightarrow> Inr (fst st))"

fun pull_layers ::
  "('a, 'a list) js_map \<Rightarrow> 'a list list \<Rightarrow> ('a, rat) js_map \<Rightarrow> nat list
     \<Rightarrow> failure + ('a, rat) js_map" where
  "pull_layers succ lns nodeY [] = Inr nodeY"
| "pull_layers succ lns nodeY (l # ls) =
     (case pull_layer succ nodeY (lns ! l) of
        Inl e \<Rightarrow> Inl e
      | Inr nodeY' \<Rightarrow> pull_layers succ lns nodeY' ls)"

definition pull_toward_successors ::
  "('a, 'a list) js_map \<Rightarrow> int \<Rightarrow> 'a list list \<Rightarrow> ('a, rat) js_map \<Rightarrow> failure + ('a, rat) js_map" where
  "pull_toward_successors succ maxL lns nodeY = pull_layers succ lns nodeY (rev [0..<nat maxL])"

text \<open>
  \<^verbatim>\<open>positions.set(id, { x: layerX[l], y: nodeY.get(id) ?? PAD, w: NODE_W, h })\<close> with
  \<^verbatim>\<open>layerX[l] = PAD + l * H_STEP\<close> and \<^verbatim>\<open>h = getNodeHeight(nodeMap.get(id)?.type)\<close>.
\<close>

definition position_of ::
  "('a, 'a node) js_map \<Rightarrow> ('a, rat) js_map \<Rightarrow> nat \<Rightarrow> 'a \<Rightarrow> position" where
  "position_of nodeMap nodeY l k =
     \<lparr>pos_x = PAD + of_nat l * H_STEP,
      pos_y = (case map_of nodeY k of Some v \<Rightarrow> v | None \<Rightarrow> PAD),
      pos_w = NODE_W,
      pos_h = getNodeHeight (map_option node_type (map_of nodeMap k))\<rparr>"

definition build_positions ::
  "('a, 'a node) js_map \<Rightarrow> ('a, rat) js_map \<Rightarrow> int \<Rightarrow> 'a list list \<Rightarrow> ('a, position) js_map" where
  "build_positions nodeMap nodeY maxL lns =
     foldl (\<lambda>ps l. foldl (\<lambda>ps k. AList.update k (position_of nodeMap nodeY l k) ps) ps (lns ! l))
       [] [0..<nat (maxL + 1)]"

text \<open>
  \<^verbatim>\<open>p.y + p.h\<close> as \<^verbatim>\<open>Math.max\<close> reads it. With a number for \<^verbatim>\<open>h\<close> it is the rounded
  sum. With a function or an object for \<^verbatim>\<open>h\<close> the operator \<^verbatim>\<open>+\<close> concatenates strings
  (\<^verbatim>\<open>"60function Object() { [native code] }"\<close>), and \<^verbatim>\<open>Math.max\<close> converts such a string
  to \<^verbatim>\<open>NaN\<close>.
\<close>

definition node_bottom :: "position \<Rightarrow> num" where
  "node_bottom p =
     (case pos_h p of
        Number h \<Rightarrow> Num (fl (pos_y p + h))
      | Member s \<Rightarrow> NaN)"

section \<open>The layout function\<close>

text \<open>
  The phases up to the crossing-minimized layers: adjacency, layers, \<^verbatim>\<open>maxLayer\<close>,
  grouping, three sweeps. \<^verbatim>\<open>Math.max(...layer.values())\<close> is taken of a map that has
  an entry for every node, and the layout function gets here only with at least one node.
  The array \<^verbatim>\<open>layerNodes\<close> has \<^verbatim>\<open>maxLayer + 1\<close> elements throughout, so every index
  \<^verbatim>\<open>l\<close> of the loops below is in range. Limits of an engine (the number of arguments a
  spread call takes, memory) are outside the model.
\<close>

definition ordered_layers ::
  "'a node list \<Rightarrow> 'a edge list
     \<Rightarrow> failure + (('a, 'a list) js_map \<times> ('a, 'a list) js_map \<times> int \<times> 'a list list)" where
  "ordered_layers ns es =
     (case build_adjacency ns es of (pred, succ) \<Rightarrow>
        (case layer_assignment ns pred succ of
           Inl e \<Rightarrow> Inl e
         | Inr lay \<Rightarrow>
            (let maxL = Max (set (map snd lay))
             in case group_by_layer maxL lay of
                  Inl e \<Rightarrow> Inl e
                | Inr lns \<Rightarrow> Inr (pred, succ, maxL, crossing_minimization pred succ maxL lns))))"

definition computeLayout :: "('a, 'z) graph_scheme \<Rightarrow> failure + 'a layout" where
  "computeLayout g =
     (if length (nodes g) = 0 then
        Inr \<lparr>positions = [], layerNodes = [], maxLayer = 0, canvasW = None, canvasH = None\<rparr>
      else
        (case ordered_layers (nodes g) (edges g) of
           Inl e \<Rightarrow> Inl e
         | Inr (pred, succ, maxL, lns) \<Rightarrow>
            (case pull_toward_successors succ maxL lns (assign_y pred maxL lns) of
               Inl e \<Rightarrow> Inl e
             | Inr nodeY \<Rightarrow>
                (let nodeMap = new_Map (map (\<lambda>n. (node_id n, n)) (nodes g));
                     ps = build_positions nodeMap nodeY maxL lns;
                     maxNodeBottom = Math_max (map (\<lambda>p. node_bottom (snd p)) ps)
                 in Inr \<lparr>positions = ps, layerNodes = lns, maxLayer = maxL,
                         canvasW = Some (PAD * 2 + (of_int maxL + 1) * H_STEP),
                         canvasH = Some (js_add maxNodeBottom (Num PAD))\<rparr>))))"

section \<open>Rounding\<close>

text \<open>
  \<open>ilog2 x\<close> is the exponent of \<open>x\<close>; rounding keeps the sign, never goes below a power of
  two that the exact value reaches, and moves the value by at most half a unit in the last
  place.
\<close>

lemma powi_nat: "0 \<le> e \<Longrightarrow> (2 :: rat) powi e = of_int (2 ^ nat e)"
  by (simp add: power_int_def)

lemma pow_split: "(2 :: rat) powi e = 2 powi 52 * 2 powi (e - 52)"
proof -
  have "(2 :: rat) powi e = 2 powi (52 + (e - 52))" by simp
  also have "\<dots> = 2 powi 52 * 2 powi (e - 52)" by (rule power_int_add) simp
  finally show ?thesis .
qed

lemma ilog2_ge1:
  assumes "1 \<le> x"
  shows "2 powi (ilog2 x) \<le> x \<and> x < 2 powi (ilog2 x + 1)"
proof -
  define n where "n = \<lfloor>x\<rfloor>"
  from assms have n: "0 < n" by (simp add: n_def)
  from bitlen_bounds [OF n] have b: "2 ^ nat (bitlen n - 1) \<le> n" "n < 2 ^ nat (bitlen n)"
    by simp_all
  from n have p: "0 < bitlen n" using bitlen_eq_zero_iff [of n] bitlen_nonneg [of n] by simp
  have e: "ilog2 x = bitlen n - 1" using assms by (simp add: ilog2_def n_def)
  have "2 powi (bitlen n - 1) = (of_int (2 ^ nat (bitlen n - 1)) :: rat)"
    using p by (intro powi_nat) simp
  also have "\<dots> \<le> of_int n" using b(1) by (simp only: of_int_le_iff)
  also have "\<dots> \<le> x" by (simp add: n_def)
  finally have l: "2 powi (ilog2 x) \<le> x" by (simp add: e)
  have "x < of_int (n + 1)" unfolding n_def by linarith
  also have "\<dots> \<le> of_int (2 ^ nat (bitlen n))" using b(2) by (subst of_int_le_iff) simp
  also have "\<dots> = 2 powi (bitlen n)" using p by (subst powi_nat) simp_all
  finally have "x < 2 powi (ilog2 x + 1)" by (simp add: e)
  with l show ?thesis by simp
qed

lemma ilog2_lt1:
  assumes "0 < x" "x < 1"
  shows "2 powi (ilog2 x) \<le> x \<and> x < 2 powi (ilog2 x + 1)"
proof -
  define n where "n = \<lceil>1 / x\<rceil> - 1"
  from assms have "1 < 1 / x" by simp
  then have "1 < \<lceil>1 / x\<rceil>" by (simp add: less_ceiling_iff)
  then have n: "0 < n" by (simp add: n_def)
  from bitlen_bounds [OF n] have b: "2 ^ nat (bitlen n - 1) \<le> n" "n < 2 ^ nat (bitlen n)"
    by simp_all
  from n have p: "0 < bitlen n" using bitlen_eq_zero_iff [of n] bitlen_nonneg [of n] by simp
  have e: "ilog2 x = - bitlen n" using assms by (simp add: ilog2_def n_def)
  have "1 / x \<le> of_int (n + 1)" unfolding n_def by simp
  also have "\<dots> \<le> of_int (2 ^ nat (bitlen n))" using b(2) by (subst of_int_le_iff) simp
  also have "\<dots> = 2 powi (bitlen n)" using p by (subst powi_nat) simp_all
  finally have "1 / x \<le> 2 powi (bitlen n)" .
  with assms(1) have "1 \<le> 2 powi (bitlen n) * x" by (simp add: field_simps)
  then have "2 powi (- bitlen n) \<le> x"
    by (simp add: power_int_minus field_simps)
  then have l: "2 powi (ilog2 x) \<le> x" by (simp add: e)
  have "2 powi (bitlen n - 1) = (of_int (2 ^ nat (bitlen n - 1)) :: rat)"
    using p by (intro powi_nat) simp
  also have "\<dots> \<le> of_int n" using b(1) by (simp only: of_int_le_iff)
  also have "\<dots> < 1 / x" unfolding n_def by linarith
  finally have "2 powi (bitlen n - 1) < 1 / x" .
  with assms(1) have "x * 2 powi (bitlen n - 1) < 1" by (simp add: field_simps)
  moreover have "(0 :: rat) < 2 powi (bitlen n - 1)" by simp
  ultimately have "x < 1 / 2 powi (bitlen n - 1)" by (simp only: pos_less_divide_eq)
  also have "\<dots> = 2 powi (- (bitlen n - 1))"
    by (simp only: power_int_minus inverse_eq_divide)
  finally have "x < 2 powi (ilog2 x + 1)" by (simp add: e)
  with l show ?thesis by simp
qed

lemma ilog2_bounds:
  assumes "0 < x"
  shows "2 powi (ilog2 x) \<le> x" "x < 2 powi (ilog2 x + 1)"
  using ilog2_ge1 [of x] ilog2_lt1 [of x] assms by (cases "1 \<le> x"; simp)+

lemma round_even_bounds: "of_int (round_even q) \<le> q + 1 / 2" "q - 1 / 2 \<le> of_int (round_even q)"
  unfolding round_even_def Let_def by (simp_all; linarith)+

lemma round_even_ge: "of_int m \<le> q \<Longrightarrow> m \<le> round_even q"
proof -
  assume "of_int m \<le> q"
  then have "m \<le> \<lfloor>q\<rfloor>" by (simp add: le_floor_iff)
  then show ?thesis by (simp add: round_even_def Let_def)
qed

lemma fl_lower:
  assumes "2 powi k \<le> x"
  shows "2 powi k \<le> fl x"
proof -
  have x: "0 < x" using assms by (rule less_le_trans [rotated]) simp
  define e where "e = ilog2 x"
  define u :: rat where "u = 2 powi (e - 52)"
  have u: "0 < u" by (simp add: u_def)
  from ilog2_bounds [OF x] have b: "2 powi e \<le> x" "x < 2 powi (e + 1)" by (simp_all add: e_def)
  from assms b(2) have "(2 :: rat) powi k < 2 powi (e + 1)" by simp
  have "k < e + 1"
  proof (rule ccontr)
    assume "\<not> k < e + 1"
    then have "(2 :: rat) powi (e + 1) \<le> 2 powi k" by (intro power_int_increasing) simp_all
    with \<open>(2 :: rat) powi k < 2 powi (e + 1)\<close> show False by simp
  qed
  then have ke: "(2 :: rat) powi k \<le> 2 powi e" by (intro power_int_increasing) simp_all
  have "(2 :: rat) powi e = 2 powi 52 * u" unfolding u_def by (rule pow_split)
  with b(1) u have "2 powi 52 \<le> x / u" by (simp add: field_simps)
  then have "of_int (2 ^ 52) \<le> x / u" by simp
  then have "2 ^ 52 \<le> round_even (x / u)" by (rule round_even_ge)
  then have "(of_int (2 ^ 52) :: rat) \<le> of_int (round_even (x / u))" by (simp only: of_int_le_iff)
  with u have "of_int (2 ^ 52) * u \<le> of_int (round_even (x / u)) * u" by (simp only: mult_le_cancel_right_pos)
  also have "of_int (2 ^ 52) * u = 2 powi e" unfolding u_def pow_split [of e] by simp
  finally have "2 powi e \<le> fl x" using x by (simp add: fl_def Let_def u_def e_def)
  with ke show ?thesis by simp
qed

lemma fl_pos_iff: "0 < fl x \<longleftrightarrow> 0 < x"
proof (cases "0 < x")
  case True
  have "(0 :: rat) < 2 powi (ilog2 x)" by simp
  also have "\<dots> \<le> fl x" by (rule fl_lower) (rule ilog2_bounds(1) [OF True])
  finally show ?thesis using True by simp
next
  case False
  show ?thesis
  proof (cases "x = 0")
    case True
    then show ?thesis by (simp add: fl_def)
  next
    case ne: False
    with False have x: "0 < - x" by simp
    define u :: rat where "u = 2 powi (ilog2 \<bar>x\<bar> - 52)"
    have u: "0 < u" by (simp add: u_def)
    from x have a: "\<bar>x\<bar> = - x" by simp
    from ilog2_bounds(1) [OF x] have "2 powi (ilog2 \<bar>x\<bar>) \<le> - x" by (simp add: a)
    moreover have "(2 :: rat) powi (ilog2 \<bar>x\<bar>) = 2 powi 52 * u"
      unfolding u_def by (rule pow_split)
    ultimately have "2 powi 52 \<le> - x / u" using u by (simp add: field_simps)
    then have "x / u \<le> - 1" by simp
    with round_even_bounds(1) [of "x / u"] have "(of_int (round_even (x / u)) :: rat) < 0"
      by simp
    with u have "of_int (round_even (x / u)) * u < 0" by (simp add: mult_neg_pos)
    with ne False show ?thesis by (simp add: fl_def Let_def u_def)
  qed
qed

lemma fl_error:
  "\<bar>fl x - x\<bar> \<le> \<bar>x\<bar> / 2 ^ 53"
proof (cases "x = 0")
  case True
  then show ?thesis by (simp add: fl_def)
next
  case False
  then have x: "0 < \<bar>x\<bar>" by simp
  define u :: rat where "u = 2 powi (ilog2 \<bar>x\<bar> - 52)"
  have u: "0 < u" by (simp add: u_def)
  have "(2 :: rat) powi (ilog2 \<bar>x\<bar>) = 2 powi 52 * u"
    unfolding u_def by (rule pow_split)
  with ilog2_bounds(1) [OF x] have b: "2 ^ 52 * u \<le> \<bar>x\<bar>" by simp
  have f: "fl x = of_int (round_even (x / u)) * u" using False by (simp add: fl_def Let_def u_def)
  have "fl x - x = (of_int (round_even (x / u)) - x / u) * u" using u by (simp add: f field_simps)
  then have "\<bar>fl x - x\<bar> = \<bar>of_int (round_even (x / u)) - x / u\<bar> * u"
    using u by (simp add: abs_mult)
  also have "\<dots> \<le> (1 / 2) * u"
  proof (rule mult_right_mono)
    show "\<bar>of_int (round_even (x / u)) - x / u\<bar> \<le> 1 / 2"
      using round_even_bounds [of "x / u"] by linarith
    show "0 \<le> u" using u by simp
  qed
  also have "\<dots> \<le> \<bar>x\<bar> / 2 ^ 53" using b by simp
  finally show ?thesis .
qed

declare fl_pos_iff [simp]

lemma fl_error_below:
  assumes "0 \<le> x"
  shows "x - x / 2 ^ 53 \<le> fl x"
proof -
  from assms have "\<bar>x\<bar> = x" by simp
  with fl_error [of x] have "\<bar>fl x - x\<bar> \<le> x / 2 ^ 53" by (simp only:)
  then show ?thesis by linarith
qed

lemma cursor_above_PAD:
  assumes "PAD \<le> v"
  shows "PAD \<le> fl (v + V_STEP)"
proof -
  from assms have "2 powi 8 \<le> v + V_STEP" by (simp add: PAD_def V_STEP_def)
  then have "2 powi 8 \<le> fl (v + V_STEP)" by (rule fl_lower)
  then show ?thesis by (simp add: PAD_def)
qed

section \<open>Maps and adjacency: basic facts\<close>

lemma keys_foldl_update:
  "fst ` set (foldl (\<lambda>m (k, v). AList.update k v m) m0 es) = fst ` set m0 \<union> fst ` set es"
  by (induction es arbitrary: m0) (simp_all add: dom_update split_beta Un_assoc)

lemma map_of_foldl_update:
  "map_of (foldl (\<lambda>m (k, v). AList.update k v m) m0 es) = map_of m0 ++ map_of (rev es)"
proof (induction es arbitrary: m0)
  case Nil show ?case by simp
next
  case (Cons p es)
  obtain k v where p: "p = (k, v)" by (cases p)
  show ?case
    by (rule ext) (simp add: Cons.IH p update_conv' map_add_def split: option.splits)
qed

lemma keys_new_Map: "fst ` set (new_Map es) = fst ` set es"
  by (simp add: new_Map_def keys_foldl_update)

lemma map_of_new_Map: "map_of (new_Map es) = map_of (rev es)"
  by (simp add: new_Map_def map_of_foldl_update)

lemma distinct_foldl_update:
  "distinct (map fst m0) \<Longrightarrow> distinct (map fst (foldl (\<lambda>m (k, v). AList.update k v m) m0 es))"
  by (induction es arbitrary: m0) (auto simp: distinct_update split: prod.splits)

lemma distinct_new_Map: "distinct (map fst (new_Map es))"
  by (simp add: new_Map_def distinct_foldl_update)

lemma map_of_new_Map_const:
  "map_of (new_Map (map (\<lambda>n. (f n, c)) ns)) k = (if k \<in> f ` set ns then Some c else None)"
proof -
  have "map_of (map (\<lambda>n. (f n, c)) xs) k = (if k \<in> f ` set xs then Some c else None)" for xs
    by (induction xs) auto
  from this [of "rev ns"] show ?thesis by (simp add: map_of_new_Map rev_map)
qed


definition preds_of :: "'a set \<Rightarrow> 'a edge list \<Rightarrow> 'a \<Rightarrow> 'a list" where
  "preds_of V es k = map source (filter (\<lambda>e. target e = k \<and> source e \<in> V) es)"

definition succs_of :: "'a set \<Rightarrow> 'a edge list \<Rightarrow> 'a \<Rightarrow> 'a list" where
  "succs_of V es k = map target (filter (\<lambda>e. source e = k \<and> target e \<in> V) es)"

definition adjacency_of ::
  "'a set \<Rightarrow> 'a edge list \<Rightarrow> ('a, 'a list) js_map \<times> ('a, 'a list) js_map \<Rightarrow> bool" where
  "adjacency_of V es adj \<longleftrightarrow>
     (\<forall>k. map_of (fst adj) k = (if k \<in> V then Some (preds_of V es k) else None)) \<and>
     (\<forall>k. map_of (snd adj) k = (if k \<in> V then Some (succs_of V es k) else None))"

lemma adjacency_of_add_edge:
  assumes "adjacency_of V es adj"
  shows "adjacency_of V (es @ [e]) (add_edge adj e)"
proof -
  obtain pred succ where adj: "adj = (pred, succ)" by (cases adj)
  from assms have P: "\<And>k. map_of pred k = (if k \<in> V then Some (preds_of V es k) else None)"
    and S: "\<And>k. map_of succ k = (if k \<in> V then Some (succs_of V es k) else None)"
    by (simp_all add: adjacency_of_def adj)
  show ?thesis
    unfolding adjacency_of_def adj add_edge_def
    by (auto simp: P S update_conv' preds_of_def succs_of_def)
qed

lemma adjacency_of_foldl:
  "adjacency_of V [] adj \<Longrightarrow> adjacency_of V es (foldl add_edge adj es)"
proof (induction es rule: rev_induct)
  case Nil
  then show ?case by simp
next
  case (snoc e es)
  then show ?case by (simp add: adjacency_of_add_edge)
qed

lemma adjacency_of_build:
  "adjacency_of (node_id ` set ns) es (build_adjacency ns es)"
  unfolding build_adjacency_def
  by (rule adjacency_of_foldl)
     (simp add: adjacency_of_def map_of_new_Map_const preds_of_def succs_of_def)

lemma keys_add_edge:
  "fst ` set (fst (add_edge adj e)) = fst ` set (fst adj) \<and>
   fst ` set (snd (add_edge adj e)) = fst ` set (snd adj)"
  by (cases adj)
     (auto simp: add_edge_def update_conv' dom_map_of_conv_image_fst [symmetric]
           split: option.splits if_splits)

lemma add_edge_unknown:
  "target e \<notin> fst ` set (fst adj) \<or> source e \<notin> fst ` set (snd adj) \<Longrightarrow> add_edge adj e = adj"
  by (cases adj)
     (auto simp: add_edge_def dom_map_of_conv_image_fst [symmetric] split: option.splits)

lemma keys_foldl_add_edge:
  "fst ` set (fst (foldl add_edge adj es)) = fst ` set (fst adj) \<and>
   fst ` set (snd (foldl add_edge adj es)) = fst ` set (snd adj)"
  by (induction es arbitrary: adj) (simp_all add: keys_add_edge)

lemma build_adjacency_drop_edge:
  assumes "source e \<notin> node_id ` set ns \<or> target e \<notin> node_id ` set ns"
  shows "build_adjacency ns (es1 @ e # es2) = build_adjacency ns (es1 @ es2)"
proof -
  let ?adj0 = "(new_Map (map (\<lambda>n. (node_id n, [] :: 'a list)) ns),
               new_Map (map (\<lambda>n. (node_id n, [] :: 'a list)) ns))"
  let ?adj1 = "foldl add_edge ?adj0 es1"
  have k: "fst ` set (fst ?adj1) = node_id ` set ns" "fst ` set (snd ?adj1) = node_id ` set ns"
    by (simp_all add: keys_foldl_add_edge keys_new_Map image_image)
  have "add_edge ?adj1 e = ?adj1"
    by (rule add_edge_unknown) (use assms k in blast)
  then show ?thesis by (simp add: build_adjacency_def)
qed


lemma set_update_cases:
  "p \<in> set (AList.update k v al) \<Longrightarrow> p = (k, v) \<or> p \<in> set al"
  by (induction al) (auto split: if_splits)

lemma foldl_preserves:
  "P s \<Longrightarrow> (\<And>s x. x \<in> set xs \<Longrightarrow> P s \<Longrightarrow> P (f s x)) \<Longrightarrow> P (foldl f s xs)"
  by (induction xs arbitrary: s) auto

definition kahn_ok :: "'a set \<Rightarrow> 'a kahn \<Rightarrow> bool" where
  "kahn_ok V st \<longleftrightarrow>
     set (queue st) \<subseteq> V \<and>
     (\<forall>k\<in>set (queue st). map_of (layer st) k \<noteq> None) \<and>
     distinct (map fst (layer st)) \<and>
     (\<forall>p\<in>set (layer st). fst p \<in> V \<and> 0 \<le> snd p)"

lemma kahn_ok_relax:
  assumes "kahn_ok V st" "0 \<le> c" "n \<in> V"
  shows "kahn_ok V (relax c st n)"
proof -
  let ?lay = "(case map_of (layer st) n of
                 None \<Rightarrow> AList.update n (c + 1) (layer st)
               | Some l \<Rightarrow> if l < c + 1 then AList.update n (c + 1) (layer st) else layer st)"
  have d: "distinct (map fst ?lay)"
    using assms(1) by (auto simp: kahn_ok_def distinct_update split: option.splits)
  have v: "\<forall>p\<in>set ?lay. fst p \<in> V \<and> 0 \<le> snd p"
    using assms by (auto simp: kahn_ok_def split: option.splits dest!: set_update_cases)
  have h: "map_of ?lay n \<noteq> None"
    by (auto simp: update_conv' split: option.splits)
  have m: "map_of (layer st) k \<noteq> None \<Longrightarrow> map_of ?lay k \<noteq> None" for k
    by (auto simp: update_conv' split: option.splits)
  have q: "set (queue (relax c st n)) \<subseteq> insert n (set (queue st))"
    by (auto simp: relax_def Let_def split: option.splits)
  have l: "layer (relax c st n) = ?lay"
    by (auto simp: relax_def Let_def split: option.splits)
  show ?thesis
    unfolding kahn_ok_def l
    using d v h m q assms(1,3) by (auto simp: kahn_ok_def)
qed

lemma kahn_ok_foldl_relax:
  assumes "kahn_ok V st" "0 \<le> c" "set ns \<subseteq> V"
  shows "kahn_ok V (foldl (relax c) st ns)"
  by (rule foldl_preserves [where P = "kahn_ok V"])
     (use assms in \<open>auto intro: kahn_ok_relax\<close>)

lemma bfs_invariant:
  assumes "I head st"
    and "\<And>head st. I head st \<Longrightarrow> head < length (queue st) \<Longrightarrow>
        map_of (layer st) (queue st ! head) \<noteq> None \<and> map_of succ (queue st ! head) \<noteq> None"
    and "\<And>head st c nexts. I head st \<Longrightarrow> head < length (queue st) \<Longrightarrow>
        map_of (layer st) (queue st ! head) = Some c \<Longrightarrow>
        map_of succ (queue st ! head) = Some nexts \<Longrightarrow>
        I (head + 1) (foldl (relax c) st nexts)"
  shows "\<exists>st'. bfs succ head st = Inr st' \<and> (\<exists>h. length (queue st') \<le> h \<and> I h st')"
  using assms
proof (induction succ head st rule: bfs.induct)
  case (1 succ head st)
  note inv = "1.prems"(1) and safe = "1.prems"(2) and step = "1.prems"(3)
  show ?case
  proof (cases "head < length (queue st)")
    case False
    have "bfs succ head st = Inr st" using False by (subst bfs.simps) simp
    moreover have "length (queue st) \<le> head" using False by simp
    ultimately show ?thesis using inv by blast
  next
    case True
    from safe [OF inv True] obtain c nexts where
      c: "map_of (layer st) (queue st ! head) = Some c"
      and n: "map_of succ (queue st ! head) = Some nexts" by auto
    have "I (head + 1) (foldl (relax c) st nexts)"
      by (rule step [OF inv True c n])
    note ih = "1.IH" [OF True c n this safe step]
    have "bfs succ head st = bfs succ (head + 1) (foldl (relax c) st nexts)"
      by (subst bfs.simps) (simp only: True c n if_True option.case)
    with ih show ?thesis by (simp only:)
  qed
qed


lemma in_degrees_adjacency:
  assumes "adjacency_of V es adj" "node_id ` set ns \<subseteq> V"
  shows "in_degrees (fst adj) ns =
           Inr (map (\<lambda>n. (node_id n, int (length (preds_of V es (node_id n))))) ns)"
  using assms(2)
proof (induction ns)
  case Nil
  show ?case by simp
next
  case (Cons n ns)
  from assms(1) Cons.prems
  have "map_of (fst adj) (node_id n) = Some (preds_of V es (node_id n))"
    by (simp add: adjacency_of_def)
  with Cons show ?case by simp
qed

lemma layer0_entries:
  "set (foldl (\<lambda>m k. AList.update k (0::int) m) m0 ks) \<subseteq> set m0 \<union> (\<lambda>k. (k, 0)) ` set ks"
  by (induction ks arbitrary: m0) (auto dest!: set_update_cases)

lemma layer0_keys:
  "fst ` set (foldl (\<lambda>m k. AList.update k (0::int) m) m0 ks) = fst ` set m0 \<union> set ks"
  by (induction ks arbitrary: m0) (simp_all add: dom_update Un_assoc)

lemma layer0_distinct:
  "distinct (map fst m0) \<Longrightarrow>
   distinct (map fst (foldl (\<lambda>m k. AList.update k (0::int) m) m0 ks))"
  by (induction ks arbitrary: m0) (simp_all add: distinct_update)

lemma init_kahn_ok:
  assumes "adjacency_of V es adj" "node_id ` set ns \<subseteq> V"
  shows "\<exists>st0. init_kahn ns (fst adj) = Inr st0 \<and> kahn_ok V st0"
proof -
  define entries where
    "entries = map (\<lambda>n. (node_id n, int (length (preds_of V es (node_id n))))) ns"
  define q where
    "q = map node_id (filter (\<lambda>n. map_of (new_Map entries) (node_id n) = Some 0) ns)"
  define l where "l = foldl (\<lambda>m k. AList.update k (0::int) m) [] q"
  have i: "init_kahn ns (fst adj) = Inr \<lparr>queue = q, layer = l, inDeg = new_Map entries\<rparr>"
    by (simp add: init_kahn_def in_degrees_adjacency [OF assms] Let_def entries_def q_def l_def)
  have q: "set q \<subseteq> V" using assms(2) by (auto simp: q_def)
  have k: "fst ` set l = set q" using layer0_keys [of "[]" q] by (simp add: l_def)
  have h: "\<forall>k\<in>set q. map_of l k \<noteq> None"
    using k by (auto simp: dom_map_of_conv_image_fst [symmetric])
  have d: "distinct (map fst l)" unfolding l_def by (rule layer0_distinct) simp
  have v: "\<forall>p\<in>set l. fst p \<in> V \<and> 0 \<le> snd p"
    using layer0_entries [of "[]" q] q by (auto simp: l_def)
  show ?thesis
    unfolding i kahn_ok_def using q h d v by simp
qed

lemma bfs_kahn_ok:
  assumes adj: "adjacency_of V es adj" and ok: "kahn_ok V st"
  shows "\<exists>st'. bfs (snd adj) head st = Inr st' \<and> kahn_ok V st'"
proof -
  have s: "map_of (snd adj) k = (if k \<in> V then Some (succs_of V es k) else None)" for k
    using adj by (simp add: adjacency_of_def)
  have "\<exists>st'. bfs (snd adj) head st = Inr st' \<and>
          (\<exists>h. length (queue st') \<le> h \<and> (\<lambda>h st. kahn_ok V st) h st')"
  proof (rule bfs_invariant)
    show "kahn_ok V st" by (rule ok)
  next
    fix head st assume "kahn_ok V st" "head < length (queue st)"
    then have "queue st ! head \<in> V" "map_of (layer st) (queue st ! head) \<noteq> None"
      by (auto simp: kahn_ok_def)
    then show "map_of (layer st) (queue st ! head) \<noteq> None \<and>
               map_of (snd adj) (queue st ! head) \<noteq> None"
      by (simp add: s)
  next
    fix head st c nexts
    assume a: "kahn_ok V st" "head < length (queue st)"
      "map_of (layer st) (queue st ! head) = Some c"
      "map_of (snd adj) (queue st ! head) = Some nexts"
    from a(3) have "(queue st ! head, c) \<in> set (layer st)" by (rule map_of_SomeD)
    with a(1) have c: "0 \<le> c" by (auto simp: kahn_ok_def)
    from a(4) have "set nexts \<subseteq> V"
      by (auto simp: s succs_of_def split: if_splits)
    with a(1) c show "kahn_ok V (foldl (relax c) st nexts)"
      by (intro kahn_ok_foldl_relax)
  qed
  then show ?thesis by blast
qed

lemma not_reached_entries:
  "set (not_reached ns lay) \<subseteq> set lay \<union> (\<lambda>n. (node_id n, 0)) ` set ns"
  unfolding not_reached_def
  by (induction ns arbitrary: lay) (auto dest!: set_update_cases split: if_splits)

lemma not_reached_keys:
  "fst ` set (not_reached ns lay) = fst ` set lay \<union> node_id ` set ns"
  unfolding not_reached_def
  by (induction ns arbitrary: lay)
     (auto simp: update_conv' dom_map_of_conv_image_fst [symmetric] domIff split: if_splits)

lemma not_reached_distinct:
  "distinct (map fst lay) \<Longrightarrow> distinct (map fst (not_reached ns lay))"
  unfolding not_reached_def
  by (induction ns arbitrary: lay) (simp_all add: distinct_update)

definition layering_of :: "'a set \<Rightarrow> ('a, int) js_map \<Rightarrow> bool" where
  "layering_of V lay \<longleftrightarrow>
     distinct (map fst lay) \<and> fst ` set lay = V \<and> (\<forall>p\<in>set lay. 0 \<le> snd p)"

lemma layer_assignment_ok:
  assumes "adjacency_of (node_id ` set ns) es adj"
  shows "\<exists>lay. layer_assignment ns (fst adj) (snd adj) = Inr lay \<and>
               layering_of (node_id ` set ns) lay"
proof -
  let ?V = "node_id ` set ns"
  from init_kahn_ok [OF assms] obtain st0
    where st0: "init_kahn ns (fst adj) = Inr st0" "kahn_ok ?V st0" by auto
  from bfs_kahn_ok [OF assms st0(2)] obtain st
    where st: "bfs (snd adj) 0 st0 = Inr st" "kahn_ok ?V st" by blast
  have "layering_of ?V (not_reached ns (layer st))"
    unfolding layering_of_def
    using st(2) not_reached_entries [of ns "layer st"] not_reached_keys [of ns "layer st"]
    by (auto simp: kahn_ok_def not_reached_distinct)
  then show ?thesis by (simp add: layer_assignment_def st0 st)
qed

section \<open>Grouping and sweeps keep the nodes of every layer\<close>

lemma mset_concat_push:
  "i < length xs \<Longrightarrow> mset (concat (xs[i := xs ! i @ [k]])) = add_mset k (mset (concat xs))"
proof (induction xs arbitrary: i)
  case Nil
  then show ?case by simp
next
  case (Cons x xs)
  then show ?case by (cases i) simp_all
qed

lemma mset_concat_update:
  "i < length xs \<Longrightarrow> mset y = mset (xs ! i) \<Longrightarrow> mset (concat (xs[i := y])) = mset (concat xs)"
proof (induction xs arbitrary: i)
  case Nil
  then show ?case by simp
next
  case (Cons x xs)
  then show ?case by (cases i) simp_all
qed

lemma group_entries_ok:
  assumes "\<forall>p\<in>set lay. 0 \<le> snd p \<and> nat (snd p) < length lns0"
  shows "\<exists>lns. group_entries lns0 lay = Inr lns \<and> length lns = length lns0 \<and>
               mset (concat lns) = mset (concat lns0) + mset (map fst lay)"
  using assms
proof (induction lay arbitrary: lns0)
  case Nil
  show ?case by simp
next
  case (Cons p lay)
  obtain k l where p: "p = (k, l)" by (cases p)
  let ?lns1 = "lns0[nat l := lns0 ! nat l @ [k]]"
  from Cons.prems p have r: "0 \<le> l" "nat l < length lns0" by auto
  then have s: "push_layer lns0 (k, l) = Inr ?lns1" by (simp add: push_layer_def)
  have "\<forall>p\<in>set lay. 0 \<le> snd p \<and> nat (snd p) < length ?lns1"
    using Cons.prems by simp
  from Cons.IH [OF this] obtain lns where
    l: "group_entries ?lns1 lay = Inr lns" "length lns = length ?lns1"
       "mset (concat lns) = mset (concat ?lns1) + mset (map fst lay)" by blast
  show ?case
    using l r by (simp add: s p mset_concat_push)
qed

lemma group_by_layer_ok:
  assumes "layering_of V lay"
  shows "\<exists>lns. group_by_layer (Max (set (map snd lay))) lay = Inr lns \<and>
               length lns = nat (Max (set (map snd lay)) + 1) \<and>
               mset (concat lns) = mset (map fst lay)"
proof -
  let ?m = "Max (set (map snd lay))"
  have "\<forall>p\<in>set lay. 0 \<le> snd p \<and> nat (snd p) < length (replicate (nat (?m + 1)) ([] :: 'a list))"
  proof
    fix p assume p: "p \<in> set lay"
    then have "snd p \<le> ?m" by (intro Max_ge) auto
    moreover from assms p have "0 \<le> snd p" by (simp add: layering_of_def)
    ultimately show "0 \<le> snd p \<and> nat (snd p) < length (replicate (nat (?m + 1)) ([] :: 'a list))"
      by simp
  qed
  from group_entries_ok [OF this] show ?thesis
    by (auto simp: group_by_layer_def)
qed

lemma mset_insert_sorted: "mset (insert_sorted cmp a bs) = add_mset a (mset bs)"
  by (induction bs) simp_all

lemma mset_js_sort: "mset (js_sort cmp xs) = mset xs"
  unfolding js_sort_def by (induction xs) (simp_all add: mset_insert_sorted)

lemma mset_sort_layer: "mset (sort_layer nb adjacent ids) = mset ids"
  by (simp add: sort_layer_def mset_js_sort Let_def)

definition same_nodes :: "'a list list \<Rightarrow> 'a list list \<Rightarrow> bool" where
  "same_nodes lns lns' \<longleftrightarrow>
     length lns' = length lns \<and> (\<forall>l<length lns. mset (lns' ! l) = mset (lns ! l))"

lemma same_nodes_refl: "same_nodes lns lns"
  by (simp add: same_nodes_def)

lemma same_nodes_update:
  "same_nodes lns ls \<Longrightarrow> mset ys = mset (ls ! l) \<Longrightarrow> same_nodes lns (ls[l := ys])"
proof -
  assume a: "same_nodes lns ls" "mset ys = mset (ls ! l)"
  have "mset (ls[l := ys] ! i) = mset (lns ! i)" if "i < length lns" for i
  proof (cases "i = l")
    case True
    with that a show ?thesis by (simp add: same_nodes_def)
  next
    case False
    with that a show ?thesis by (simp add: same_nodes_def)
  qed
  with a(1) show ?thesis by (simp add: same_nodes_def)
qed

lemma same_nodes_forward: "same_nodes lns (forward_pass pred maxL lns)"
  unfolding forward_pass_def
  by (rule foldl_preserves [where P = "same_nodes lns"])
     (simp_all add: same_nodes_refl same_nodes_update mset_sort_layer)

lemma same_nodes_backward: "same_nodes lns (backward_pass succ maxL lns)"
  unfolding backward_pass_def
  by (rule foldl_preserves [where P = "same_nodes lns"])
     (simp_all add: same_nodes_refl same_nodes_update mset_sort_layer)

lemma same_nodes_trans: "same_nodes a b \<Longrightarrow> same_nodes b c \<Longrightarrow> same_nodes a c"
  by (simp add: same_nodes_def)

lemma same_nodes_crossing: "same_nodes lns (crossing_minimization pred succ maxL lns)"
  unfolding crossing_minimization_def
  by (blast intro: same_nodes_trans same_nodes_forward same_nodes_backward)

lemma same_nodes_concat:
  "same_nodes lns lns' \<Longrightarrow> mset (concat lns') = mset (concat lns)"
proof (induction lns arbitrary: lns')
  case Nil
  then show ?case by (simp add: same_nodes_def)
next
  case (Cons a lns)
  then obtain b ls where l: "lns' = b # ls" by (cases lns') (auto simp: same_nodes_def)
  from Cons.prems have "mset b = mset a" by (auto simp: same_nodes_def l)
  moreover from Cons.prems have "same_nodes lns ls"
    by (fastforce simp: same_nodes_def l)
  ultimately show ?case using Cons.IH by (simp add: l)
qed

lemma ordered_layers_ok:
  "\<exists>pred succ maxL lns lay.
     ordered_layers ns es = Inr (pred, succ, maxL, lns) \<and>
     build_adjacency ns es = (pred, succ) \<and>
     layer_assignment ns pred succ = Inr lay \<and>
     layering_of (node_id ` set ns) lay \<and>
     maxL = Max (set (map snd lay)) \<and>
     length lns = nat (maxL + 1) \<and>
     mset (concat lns) = mset (map fst lay)"
proof -
  obtain pred succ where adj: "build_adjacency ns es = (pred, succ)"
    by (cases "build_adjacency ns es")
  have a: "adjacency_of (node_id ` set ns) es (pred, succ)"
    using adjacency_of_build [of ns es] by (simp add: adj)
  from layer_assignment_ok [OF a] obtain lay where
    lay: "layer_assignment ns pred succ = Inr lay" "layering_of (node_id ` set ns) lay"
    by auto
  define maxL where "maxL = Max (set (map snd lay))"
  from group_by_layer_ok [OF lay(2)] obtain lns0 where
    g: "group_by_layer maxL lay = Inr lns0" "length lns0 = nat (maxL + 1)"
       "mset (concat lns0) = mset (map fst lay)"
    unfolding maxL_def by blast
  let ?lns = "crossing_minimization pred succ maxL lns0"
  have s: "same_nodes lns0 ?lns" by (rule same_nodes_crossing)
  have m: "Max (snd ` set lay) = maxL" by (simp add: maxL_def)
  have "ordered_layers ns es = Inr (pred, succ, maxL, ?lns)"
    by (simp add: ordered_layers_def adj lay g m Let_def)
  moreover have "length ?lns = nat (maxL + 1)" using s g by (simp add: same_nodes_def)
  moreover have "mset (concat ?lns) = mset (map fst lay)"
    using same_nodes_concat [OF s] g by simp
  ultimately show ?thesis using adj lay maxL_def by blast
qed

lemma layering_nodes:
  assumes "layering_of V lay" "mset (concat lns) = mset (map fst lay)"
  shows "distinct (concat lns)" "set (concat lns) = V"
proof -
  from assms(2) have "distinct (concat lns) \<longleftrightarrow> distinct (map fst lay)"
    by (rule mset_eq_imp_distinct_iff)
  with assms(1) show "distinct (concat lns)" by (simp add: layering_of_def)
  from assms(2) have "set (concat lns) = set (map fst lay)" by (rule mset_eq_setD)
  with assms(1) show "set (concat lns) = V" by (simp add: layering_of_def)
qed

lemma layering_maxL:
  assumes "layering_of V lay" "lay \<noteq> []"
  shows "0 \<le> Max (set (map snd lay))"
proof -
  from assms(2) obtain p where p: "p \<in> set lay" by (cases lay) auto
  with assms(1) have "0 \<le> snd p" by (simp add: layering_of_def)
  also from p have "snd p \<le> Max (set (map snd lay))" by (intro Max_ge) auto
  finally show ?thesis .
qed

section \<open>The top-down pass\<close>

fun gapped :: "rat \<Rightarrow> ('a \<rightharpoonup> rat) \<Rightarrow> 'a list \<Rightarrow> bool" where
  "gapped c m [] = True"
| "gapped c m (k # ks) = (\<exists>v. m k = Some v \<and> c \<le> v \<and> gapped (fl (v + V_STEP)) m ks)"

lemma gapped_cong:
  "(\<And>k. k \<in> set ks \<Longrightarrow> m k = m' k) \<Longrightarrow> gapped c m ks = gapped c m' ks"
  by (induction ks arbitrary: c) auto

lemma gapped_lower:
  "PAD \<le> c \<Longrightarrow> gapped c m ks \<Longrightarrow> k \<in> set ks \<Longrightarrow> \<exists>v. m k = Some v \<and> PAD \<le> v"
proof (induction ks arbitrary: c)
  case Nil
  then show ?case by simp
next
  case (Cons a ks)
  from Cons.prems(2) obtain v where v: "m a = Some v" "c \<le> v" "gapped (fl (v + V_STEP)) m ks"
    by auto
  from v(2) Cons.prems(1) have p: "PAD \<le> v" by simp
  show ?case
  proof (cases "k = a")
    case True
    with v p show ?thesis by simp
  next
    case False
    with Cons.prems(3) have "k \<in> set ks" by simp
    from Cons.IH [OF cursor_above_PAD [OF p] v(3) this] show ?thesis .
  qed
qed

lemma gapped_nth:
  "gapped c m ks \<Longrightarrow> Suc i < length ks \<Longrightarrow>
   \<exists>v w. m (ks ! i) = Some v \<and> m (ks ! Suc i) = Some w \<and> fl (v + V_STEP) \<le> w"
proof (induction ks arbitrary: c i)
  case Nil
  then show ?case by simp
next
  case (Cons a ks)
  from Cons.prems(1) obtain v where v: "m a = Some v" "c \<le> v" "gapped (fl (v + V_STEP)) m ks"
    by auto
  show ?case
  proof (cases i)
    case 0
    with Cons.prems(2) obtain b bs where ks: "ks = b # bs" by (cases ks) auto
    with v(3) obtain w where "m b = Some w" "fl (v + V_STEP) \<le> w" by auto
    with v(1) 0 ks show ?thesis by simp
  next
    case (Suc j)
    with Cons.prems(2) have "Suc j < length ks" by simp
    from Cons.IH [OF v(3) this] Suc show ?thesis by simp
  qed
qed

lemma place_node_eq:
  "\<exists>v. place_node pred (nodeY, c) k = (AList.update k v nodeY, fl (v + V_STEP)) \<and> c \<le> v"
proof (cases "placed nodeY (case map_of pred k of Some ps \<Rightarrow> ps | None \<Rightarrow> [])")
  case Nil
  then have "place_node pred (nodeY, c) k = (AList.update k c nodeY, fl (c + V_STEP))"
    by (simp add: place_node_def Let_def)
  then show ?thesis by blast
next
  case (Cons y ys)
  define v where "v = max c (average (y # ys))"
  from Cons have "place_node pred (nodeY, c) k = (AList.update k v nodeY, fl (v + V_STEP))"
    by (simp add: place_node_def Let_def v_def)
  moreover have "c \<le> v" by (simp add: v_def)
  ultimately show ?thesis by blast
qed

lemma place_nodes_other:
  "k \<notin> set ks \<Longrightarrow>
   map_of (fst (foldl (place_node pred) (nodeY, c) ks)) k = map_of nodeY k"
proof (induction ks arbitrary: nodeY c)
  case Nil
  show ?case by simp
next
  case (Cons a ks)
  from place_node_eq [of pred nodeY c a] obtain v where
    v: "place_node pred (nodeY, c) a = (AList.update a v nodeY, fl (v + V_STEP))" by blast
  from Cons show ?case by (simp add: v update_conv')
qed

lemma place_nodes_keys:
  "fst ` set (fst (foldl (place_node pred) (nodeY, c) ks)) = fst ` set nodeY \<union> set ks"
proof (induction ks arbitrary: nodeY c)
  case Nil
  show ?case by simp
next
  case (Cons a ks)
  from place_node_eq [of pred nodeY c a] obtain v where
    v: "place_node pred (nodeY, c) a = (AList.update a v nodeY, fl (v + V_STEP))" by blast
  show ?case by (simp add: v Cons.IH dom_update Un_assoc)
qed

lemma place_nodes_gapped:
  "distinct ks \<Longrightarrow> gapped c (map_of (fst (foldl (place_node pred) (nodeY, c) ks))) ks"
proof (induction ks arbitrary: nodeY c)
  case Nil
  show ?case by simp
next
  case (Cons a ks)
  from place_node_eq [of pred nodeY c a] obtain v where
    v: "place_node pred (nodeY, c) a = (AList.update a v nodeY, fl (v + V_STEP))" "c \<le> v"
    by blast
  let ?m = "map_of (fst (foldl (place_node pred) (AList.update a v nodeY, fl (v + V_STEP)) ks))"
  from Cons.prems have "a \<notin> set ks" by simp
  from place_nodes_other [OF this] have "?m a = Some v" by (simp add: update_conv')
  moreover from Cons have "gapped (fl (v + V_STEP)) ?m ks" by simp
  ultimately show ?case using v by simp
qed

lemma place_layer_other:
  "k \<notin> set ids \<Longrightarrow> map_of (place_layer pred nodeY ids) k = map_of nodeY k"
  by (simp add: place_layer_def place_nodes_other)

lemma place_layer_keys:
  "fst ` set (place_layer pred nodeY ids) = fst ` set nodeY \<union> set ids"
  by (simp add: place_layer_def place_nodes_keys)

lemma place_layer_gapped:
  "distinct ids \<Longrightarrow> gapped PAD (map_of (place_layer pred nodeY ids)) ids"
  by (simp add: place_layer_def place_nodes_gapped)

lemma place_layers_other:
  "k \<notin> set (concat lns) \<Longrightarrow> map_of (foldl (place_layer pred) nodeY lns) k = map_of nodeY k"
  by (induction lns arbitrary: nodeY) (simp_all add: place_layer_other)

lemma place_layers_gapped:
  "distinct (concat lns) \<Longrightarrow> ids \<in> set lns \<Longrightarrow>
   gapped PAD (map_of (foldl (place_layer pred) nodeY lns)) ids"
proof (induction lns arbitrary: nodeY)
  case Nil
  then show ?case by simp
next
  case (Cons a lns)
  show ?case
  proof (cases "ids = a")
    case True
    from Cons.prems(1) have d: "distinct a" "\<forall>k\<in>set a. k \<notin> set (concat lns)" by auto
    have "gapped PAD (map_of (foldl (place_layer pred) (place_layer pred nodeY a) lns)) a =
          gapped PAD (map_of (place_layer pred nodeY a)) a"
      by (rule gapped_cong) (use d in \<open>simp add: place_layers_other\<close>)
    with d(1) True show ?thesis by (simp add: place_layer_gapped)
  next
    case False
    with Cons show ?thesis by simp
  qed
qed

lemma index_loop:
  "length lns = n \<Longrightarrow> foldl (\<lambda>s l. f s (lns ! l)) s0 [0..<n] = foldl f s0 lns"
proof -
  assume "length lns = n"
  then have "map (\<lambda>l. lns ! l) [0..<n] = lns" by (auto simp: map_nth)
  then have "foldl f s0 lns = foldl f s0 (map (\<lambda>l. lns ! l) [0..<n])" by simp
  also have "\<dots> = foldl (\<lambda>s l. f s (lns ! l)) s0 [0..<n]" by (simp add: foldl_map)
  finally show ?thesis by simp
qed

lemma assign_y_gapped:
  assumes "length lns = nat (maxL + 1)" "distinct (concat lns)" "ids \<in> set lns"
  shows "gapped PAD (map_of (assign_y pred maxL lns)) ids"
  unfolding assign_y_def index_loop [OF assms(1)]
  by (rule place_layers_gapped [OF assms(2,3)])

section \<open>The second pass and the position map\<close>

lemma pull_node_id:
  assumes "map_of nodeY k = Some v" "PAD \<le> v"
  shows "pull_node succ (nodeY, c) k = Inr (nodeY, Some v)"
proof -
  have "AList.update k (max v (if m < PAD then PAD else m)) nodeY = nodeY" if "\<not> v < m" for m
  proof -
    from that assms(2) have "max v (if m < PAD then PAD else m) = v" by simp
    with assms(1) show ?thesis by (simp add: update_triv)
  qed
  with assms(1) show ?thesis
    by (simp add: pull_node_def Let_def)
qed

lemma pull_nodes_id:
  assumes "\<forall>k\<in>set ks. \<exists>v. map_of nodeY k = Some v \<and> PAD \<le> v"
  shows "\<exists>c'. pull_nodes succ (nodeY, c) ks = Inr (nodeY, c')"
  using assms
proof (induction ks arbitrary: c)
  case Nil
  show ?case by simp
next
  case (Cons k ks)
  from Cons.prems obtain v where v: "map_of nodeY k = Some v" "PAD \<le> v" by auto
  from Cons.prems have "\<forall>k\<in>set ks. \<exists>v. map_of nodeY k = Some v \<and> PAD \<le> v" by simp
  from Cons.IH [OF this, of "Some v"] show ?case
    by (simp add: pull_node_id [OF v])
qed

lemma pull_layer_id:
  assumes "\<forall>k\<in>set ids. \<exists>v. map_of nodeY k = Some v \<and> PAD \<le> v"
  shows "pull_layer succ nodeY ids = Inr nodeY"
proof -
  from assms have "\<forall>k\<in>set (rev ids). \<exists>v. map_of nodeY k = Some v \<and> PAD \<le> v" by simp
  from pull_nodes_id [OF this, of succ None] show ?thesis
    by (auto simp: pull_layer_def)
qed

lemma pull_layers_id:
  assumes "\<forall>l\<in>set ls. \<forall>k\<in>set (lns ! l). \<exists>v. map_of nodeY k = Some v \<and> PAD \<le> v"
  shows "pull_layers succ lns nodeY ls = Inr nodeY"
  using assms by (induction ls) (simp_all add: pull_layer_id)

lemma pull_toward_successors_id:
  assumes "length lns = nat (maxL + 1)"
    and "\<forall>k\<in>set (concat lns). \<exists>v. map_of nodeY k = Some v \<and> PAD \<le> v"
  shows "pull_toward_successors succ maxL lns nodeY = Inr nodeY"
  unfolding pull_toward_successors_def
proof (rule pull_layers_id, intro ballI)
  fix l k assume "l \<in> set (rev [0..<nat maxL])" "k \<in> set (lns ! l)"
  with assms(1) have "l < length lns" by auto
  then have "lns ! l \<in> set lns" by simp
  with \<open>k \<in> set (lns ! l)\<close> have "k \<in> set (concat lns)" by auto
  with assms(2) show "\<exists>v. map_of nodeY k = Some v \<and> PAD \<le> v" by blast
qed

lemma assign_y_placed:
  assumes "length lns = nat (maxL + 1)" "distinct (concat lns)" "k \<in> set (concat lns)"
  shows "\<exists>v. map_of (assign_y pred maxL lns) k = Some v \<and> PAD \<le> v"
proof -
  from assms(3) obtain ids where i: "ids \<in> set lns" "k \<in> set ids" by auto
  show ?thesis
    by (rule gapped_lower [OF order_refl assign_y_gapped [OF assms(1,2) i(1)] i(2)])
qed

text \<open>
  The position map: one \<^verbatim>\<open>positions.set\<close> per id of every layer.
\<close>

lemma positions_layer_keys:
  "fst ` set (foldl (\<lambda>ps k. AList.update k (f k) ps) ps0 ids) = fst ` set ps0 \<union> set ids"
  by (induction ids arbitrary: ps0) (simp_all add: dom_update Un_assoc)

lemma positions_layer_distinct:
  "distinct (map fst ps0) \<Longrightarrow> distinct (map fst (foldl (\<lambda>ps k. AList.update k (f k) ps) ps0 ids))"
  by (induction ids arbitrary: ps0) (simp_all add: distinct_update)

lemma positions_layer_entries:
  "set (foldl (\<lambda>ps k. AList.update k (f k) ps) ps0 ids) \<subseteq> set ps0 \<union> (\<lambda>k. (k, f k)) ` set ids"
  by (induction ids arbitrary: ps0) (auto dest!: set_update_cases)

lemma build_positions_keys:
  assumes "length lns = nat (maxL + 1)"
  shows "fst ` set (build_positions nodeMap nodeY maxL lns) = set (concat lns)"
proof -
  have "fst ` set (foldl (\<lambda>ps l. foldl (\<lambda>ps k. AList.update k (position_of nodeMap nodeY l k) ps)
            ps (lns ! l)) ps0 ls) = fst ` set ps0 \<union> (\<Union>l\<in>set ls. set (lns ! l))" for ps0 ls
    by (induction ls arbitrary: ps0) (simp_all add: positions_layer_keys Un_assoc)
  from this [of "[]" "[0..<length lns]"]
  have "fst ` set (build_positions nodeMap nodeY maxL lns) = (\<Union>l\<in>{0..<length lns}. set (lns ! l))"
    by (simp add: build_positions_def assms)
  also have "\<dots> = (\<Union>ids\<in>set lns. set ids)"
    by (force simp: set_conv_nth [of lns])
  also have "\<dots> = set (concat lns)" by simp
  finally show ?thesis .
qed

lemma build_positions_distinct:
  "distinct (map fst (build_positions nodeMap nodeY maxL lns))"
proof -
  have "distinct (map fst ps0) \<Longrightarrow>
        distinct (map fst (foldl (\<lambda>ps l. foldl (\<lambda>ps k. AList.update k (position_of nodeMap nodeY l k) ps)
            ps (lns ! l)) ps0 ls))" for ps0 ls
    by (induction ls arbitrary: ps0) (simp_all add: positions_layer_distinct)
  from this [of "[]"] show ?thesis by (simp add: build_positions_def)
qed

lemma build_positions_entries:
  assumes "p \<in> set (build_positions nodeMap nodeY maxL lns)"
  shows "\<exists>l<nat (maxL + 1). fst p \<in> set (lns ! l) \<and> snd p = position_of nodeMap nodeY l (fst p)"
proof -
  have "p \<in> set (foldl (\<lambda>ps l. foldl (\<lambda>ps k. AList.update k (position_of nodeMap nodeY l k) ps)
            ps (lns ! l)) ps0 ls) \<Longrightarrow>
        p \<in> set ps0 \<or> (\<exists>l\<in>set ls. fst p \<in> set (lns ! l) \<and> snd p = position_of nodeMap nodeY l (fst p))"
    for ps0 ls
  proof (induction ls arbitrary: ps0)
    case Nil
    then show ?case by simp
  next
    case (Cons l ls)
    from Cons.IH [OF Cons.prems [simplified]]
    show ?case
      using positions_layer_entries [of "\<lambda>k. position_of nodeMap nodeY l k" ps0 "lns ! l"]
      by auto
  qed
  from this [of "[]" "[0..<nat (maxL + 1)]"] assms show ?thesis
    by (auto simp: build_positions_def)
qed

lemma build_positions_y:
  assumes "map_of (build_positions nodeMap nodeY maxL lns) k = Some p"
    and "map_of nodeY k = Some v"
  shows "pos_y p = v"
proof -
  from assms(1) have "(k, p) \<in> set (build_positions nodeMap nodeY maxL lns)"
    by (rule map_of_SomeD)
  from build_positions_entries [OF this] assms(2) show ?thesis
    by (auto simp: position_of_def)
qed

text \<open>What the layout function returns on a graph with at least one node.\<close>

lemma computeLayout_nonempty:
  assumes "nodes g \<noteq> []"
  shows "\<exists>pred succ maxL lns.
     ordered_layers (nodes g) (edges g) = Inr (pred, succ, maxL, lns) \<and>
     length lns = nat (maxL + 1) \<and> 0 \<le> maxL \<and>
     distinct (concat lns) \<and> set (concat lns) = node_id ` set (nodes g) \<and>
     pull_toward_successors succ maxL lns (assign_y pred maxL lns) = Inr (assign_y pred maxL lns) \<and>
     computeLayout g =
       Inr \<lparr>positions = build_positions (new_Map (map (\<lambda>n. (node_id n, n)) (nodes g)))
                          (assign_y pred maxL lns) maxL lns,
            layerNodes = lns, maxLayer = maxL,
            canvasW = Some (PAD * 2 + (of_int maxL + 1) * H_STEP),
            canvasH = Some (js_add (Math_max (map (\<lambda>p. node_bottom (snd p))
                        (build_positions (new_Map (map (\<lambda>n. (node_id n, n)) (nodes g)))
                          (assign_y pred maxL lns) maxL lns))) (Num PAD))\<rparr>"
proof -
  from ordered_layers_ok [of "nodes g" "edges g"] obtain pred succ maxL lns lay where
    o: "ordered_layers (nodes g) (edges g) = Inr (pred, succ, maxL, lns)"
       "layering_of (node_id ` set (nodes g)) lay"
       "maxL = Max (set (map snd lay))"
       "length lns = nat (maxL + 1)"
       "mset (concat lns) = mset (map fst lay)" by blast
  from o(2) assms have "lay \<noteq> []" by (auto simp: layering_of_def)
  from layering_maxL [OF o(2) this] have m: "0 \<le> maxL" unfolding o(3) .
  note n = layering_nodes [OF o(2) o(5)]
  have "\<forall>k\<in>set (concat lns). \<exists>v. map_of (assign_y pred maxL lns) k = Some v \<and> PAD \<le> v"
    using assign_y_placed [OF o(4) n(1)] by blast
  then have p: "pull_toward_successors succ maxL lns (assign_y pred maxL lns)
      = Inr (assign_y pred maxL lns)"
    by (rule pull_toward_successors_id [OF o(4)])
  have c: "computeLayout g =
       Inr \<lparr>positions = build_positions (new_Map (map (\<lambda>n. (node_id n, n)) (nodes g)))
                          (assign_y pred maxL lns) maxL lns,
            layerNodes = lns, maxLayer = maxL,
            canvasW = Some (PAD * 2 + (of_int maxL + 1) * H_STEP),
            canvasH = Some (js_add (Math_max (map (\<lambda>p. node_bottom (snd p))
                        (build_positions (new_Map (map (\<lambda>n. (node_id n, n)) (nodes g)))
                          (assign_y pred maxL lns) maxL lns))) (Num PAD))\<rparr>"
    by (simp add: computeLayout_def assms o(1) p Let_def)
  from o(1,4) m n p c show ?thesis by blast
qed

section \<open>Totality\<close>

lemma computeLayout_total: "\<exists>r. computeLayout g = Inr r"
proof (cases "nodes g = []")
  case True
  then show ?thesis by (simp add: computeLayout_def)
next
  case False
  from computeLayout_nonempty [OF False] show ?thesis by blast
qed

section \<open>Example graphs\<close>

definition node_of :: "string \<Rightarrow> string \<Rightarrow> string node" where
  "node_of k t = \<lparr>node_id = k, node_type = t\<rparr>"

definition edge_of :: "string \<Rightarrow> string \<Rightarrow> string edge" where
  "edge_of s t = \<lparr>source = s, target = t\<rparr>"

definition diamond :: "string graph" where
  "diamond =
     \<lparr>nodes = [node_of ''A'' ''incast'', node_of ''B'' ''op'', node_of ''C'' ''op'',
               node_of ''D'' ''outcast''],
      edges = [edge_of ''A'' ''B'', edge_of ''A'' ''C'', edge_of ''B'' ''D'',
               edge_of ''C'' ''D'']\<rparr>"

definition diamond_layout :: "string layout" where
  "diamond_layout =
     \<lparr>positions =
        [(''A'', \<lparr>pos_x = 60, pos_y = 60, pos_w = 250, pos_h = Number 200\<rparr>),
         (''B'', \<lparr>pos_x = 390, pos_y = 60, pos_w = 250, pos_h = Number 148\<rparr>),
         (''C'', \<lparr>pos_x = 390, pos_y = 280, pos_w = 250, pos_h = Number 148\<rparr>),
         (''D'', \<lparr>pos_x = 720, pos_y = 170, pos_w = 250, pos_h = Number 200\<rparr>)],
      layerNodes = [[''A''], [''B'', ''C''], [''D'']],
      maxLayer = 2, canvasW = Some 1110, canvasH = Some (Num 488)\<rparr>"

lemma computeLayout_diamond: "computeLayout diamond = Inr diamond_layout"
  by code_simp

section \<open>Vertical spacing inside a layer\<close>

text \<open>
  An acyclic graph with distinct ids in which a node has three placed predecessors, at
  60, 60 and 500: \<open>t\<close> is placed at the double nearest to \<open>620 / 3\<close>, and the cursor for
  \<open>u\<close>, the next node of the layer, is the double nearest to that value plus 220.
\<close>

definition thirds :: "string graph" where
  "thirds =
     \<lparr>nodes = [node_of ''a'' ''op'', node_of ''b'' ''op'', node_of ''c'' ''op'',
               node_of ''m'' ''op'', node_of ''t'' ''op'', node_of ''u'' ''op''],
      edges = [edge_of ''a'' ''m'', edge_of ''a'' ''t'', edge_of ''m'' ''t'',
               edge_of ''c'' ''t'', edge_of ''m'' ''u'']\<rparr>"

definition thirds_layout :: "string layout" where
  "thirds_layout =
     \<lparr>positions =
        [(''a'', \<lparr>pos_x = 60, pos_y = 60, pos_w = 250, pos_h = Number 148\<rparr>),
         (''b'', \<lparr>pos_x = 60, pos_y = 280, pos_w = 250, pos_h = Number 148\<rparr>),
         (''c'', \<lparr>pos_x = 60, pos_y = 500, pos_w = 250, pos_h = Number 148\<rparr>),
         (''m'', \<lparr>pos_x = 390, pos_y = 60, pos_w = 250, pos_h = Number 148\<rparr>),
         (''t'', \<lparr>pos_x = 720, pos_y = 7271436898358613 / 35184372088832, pos_w = 250,
                  pos_h = Number 148\<rparr>),
         (''u'', \<lparr>pos_x = 720, pos_y = 3752999689475413 / 8796093022208, pos_w = 250,
                  pos_h = Number 148\<rparr>)],
      layerNodes = [[''a'', ''b'', ''c''], [''m''], [''t'', ''u'']],
      maxLayer = 2, canvasW = Some 1110, canvasH = Some (Num 708)\<rparr>"

text \<open>
  Claim C3, as stated, fails. In the layout of \<open>thirds\<close> the nodes \<open>t\<close> and \<open>u\<close> follow each
  other in layer 2. \<open>t\<close> lies at \<open>206.66666666666666\<close> and \<open>u\<close> at the cursor
  \<open>426.66666666666663\<close>, the rounded sum of that value and \<^const>\<open>V_STEP\<close>: the two
  y-coordinates differ by \<open>220 - 2\<^sup>-\<^sup>4\<^sup>5\<close>, which is less than \<^const>\<open>V_STEP\<close>.
\<close>

theorem rounded_cursor_closer_than_V_STEP:
  "computeLayout thirds = Inr thirds_layout \<and>
   layerNodes thirds_layout ! 2 = [''t'', ''u''] \<and>
   map_of (positions thirds_layout) ''t'' =
     Some \<lparr>pos_x = 720, pos_y = 7271436898358613 / 35184372088832, pos_w = 250,
           pos_h = Number 148\<rparr> \<and>
   map_of (positions thirds_layout) ''u'' =
     Some \<lparr>pos_x = 720, pos_y = 3752999689475413 / 8796093022208, pos_w = 250,
           pos_h = Number 148\<rparr> \<and>
   3752999689475413 / 8796093022208 - 7271436898358613 / 35184372088832 = V_STEP - 1 / 2 ^ 45 \<and>
   3752999689475413 / 8796093022208 - 7271436898358613 / 35184372088832 < V_STEP"
proof -
  have "computeLayout thirds = Inr thirds_layout" by code_simp
  then show ?thesis by (simp add: thirds_layout_def V_STEP_def)
qed

text \<open>
  Claim C3, amended. In every layer of the returned \<^verbatim>\<open>layerNodes\<close>, of two nodes that
  follow each other the later one lies at or below the cursor that the earlier one left:
  its y-coordinate is at least the double sum \<^verbatim>\<open>y + V_STEP\<close> of the earlier node's
  y-coordinate and \<^const>\<open>V_STEP\<close>. This sum is the exact one rounded to the nearest double,
  so the exact distance of the two nodes falls short of \<^const>\<open>V_STEP\<close> by at most the
  \<open>2\<^sup>5\<^sup>3\<close>th part of \<^verbatim>\<open>y + V_STEP\<close>. This holds for every input graph, cyclic or with
  repeated ids included.
\<close>

theorem consecutive_nodes_cursor_apart:
  assumes "computeLayout g = Inr r"
    and "l < length (layerNodes r)" and "Suc i < length (layerNodes r ! l)"
  shows "\<exists>p q. map_of (positions r) (layerNodes r ! l ! i) = Some p \<and>
               map_of (positions r) (layerNodes r ! l ! Suc i) = Some q \<and>
               fl (pos_y p + V_STEP) \<le> pos_y q \<and>
               V_STEP - (pos_y p + V_STEP) / 2 ^ 53 \<le> pos_y q - pos_y p"
proof (cases "nodes g = []")
  case True
  with assms(1) have "layerNodes r = []" by (auto simp: computeLayout_def)
  with assms(2) show ?thesis by simp
next
  case False
  from computeLayout_nonempty [OF False] obtain pred succ maxL lns where
    o: "length lns = nat (maxL + 1)" "distinct (concat lns)"
    and c: "computeLayout g =
       Inr \<lparr>positions = build_positions (new_Map (map (\<lambda>n. (node_id n, n)) (nodes g)))
                          (assign_y pred maxL lns) maxL lns,
            layerNodes = lns, maxLayer = maxL,
            canvasW = Some (PAD * 2 + (of_int maxL + 1) * H_STEP),
            canvasH = Some (js_add (Math_max (map (\<lambda>p. node_bottom (snd p))
                        (build_positions (new_Map (map (\<lambda>n. (node_id n, n)) (nodes g)))
                          (assign_y pred maxL lns) maxL lns))) (Num PAD))\<rparr>"
    by blast
  define ps where "ps = build_positions (new_Map (map (\<lambda>n. (node_id n, n)) (nodes g)))
                          (assign_y pred maxL lns) maxL lns"
  from c assms(1) have r: "positions r = ps" "layerNodes r = lns"
    by (auto simp: ps_def)
  let ?ids = "lns ! l"
  from assms(2) r have l: "l < length lns" by simp
  then have m: "?ids \<in> set lns" by simp
  from assms(3) r have i: "Suc i < length ?ids" by simp
  from gapped_nth [OF assign_y_gapped [OF o m] i] obtain v w where
    y: "map_of (assign_y pred maxL lns) (?ids ! i) = Some v"
       "map_of (assign_y pred maxL lns) (?ids ! Suc i) = Some w" "fl (v + V_STEP) \<le> w"
    by blast
  from i have e: "?ids ! i \<in> set ?ids" "?ids ! Suc i \<in> set ?ids" by simp_all
  with m have "?ids ! i \<in> set (concat lns)" by auto
  from assign_y_placed [OF o this, of pred] y(1) have "PAD \<le> v" by simp
  then have pos: "0 \<le> v + V_STEP" by (simp add: PAD_def V_STEP_def)
  from fl_error_below [OF pos] y(3)
  have d: "V_STEP - (v + V_STEP) / 2 ^ 53 \<le> w - v" by linarith
  have k: "k \<in> set ?ids \<Longrightarrow> \<exists>p. map_of ps k = Some p" for k
  proof -
    assume "k \<in> set ?ids"
    with m have "k \<in> set (concat lns)" by auto
    then have "k \<in> fst ` set ps" by (simp add: ps_def build_positions_keys [OF o(1)])
    then show ?thesis by (auto simp: dom_map_of_conv_image_fst [symmetric])
  qed
  from e k obtain p q where
    pq: "map_of ps (?ids ! i) = Some p" "map_of ps (?ids ! Suc i) = Some q" by blast
  from pq y have "pos_y p = v" "pos_y q = w"
    by (auto simp: ps_def dest: build_positions_y)
  with pq y(3) d r show ?thesis by simp
qed

theorem consecutive_nodes_cursor_apart_witness:
  "computeLayout thirds = Inr thirds_layout \<and>
   2 < length (layerNodes thirds_layout) \<and>
   Suc 0 < length (layerNodes thirds_layout ! 2) \<and>
   (\<exists>p q. map_of (positions thirds_layout) (layerNodes thirds_layout ! 2 ! 0) = Some p \<and>
          map_of (positions thirds_layout) (layerNodes thirds_layout ! 2 ! Suc 0) = Some q \<and>
          fl (pos_y p + V_STEP) \<le> pos_y q \<and>
          V_STEP - (pos_y p + V_STEP) / 2 ^ 53 \<le> pos_y q - pos_y p)"
proof -
  have h1: "computeLayout thirds = Inr thirds_layout" by code_simp
  have h2: "2 < length (layerNodes thirds_layout)" by (simp add: thirds_layout_def)
  have h3: "Suc 0 < length (layerNodes thirds_layout ! 2)" by (simp add: thirds_layout_def)
  from consecutive_nodes_cursor_apart [OF h1 h2 h3] h1 h2 h3 show ?thesis by blast
qed

section \<open>The empty graph\<close>

definition empty_graph :: "string graph" where
  "empty_graph = \<lparr>nodes = [], edges = []\<rparr>"

text \<open>
  Claim C6. On the graph without nodes the function returns through its first line,
  \<^verbatim>\<open>return { positions: new Map(), layerNodes: [], maxLayer: 0 }\<close>: the position map
  is empty, but the object has no \<^verbatim>\<open>canvasW\<close> and no \<^verbatim>\<open>canvasH\<close>, so both read as
  \<^verbatim>\<open>undefined\<close> (\<open>None\<close>), whereas the return at the end of the function sets both.
\<close>

theorem empty_graph_has_no_canvas_size:
  "computeLayout empty_graph =
     Inr \<lparr>positions = [], layerNodes = [], maxLayer = 0, canvasW = None, canvasH = None\<rparr>"
  by (simp add: computeLayout_def empty_graph_def)

section \<open>The second pass\<close>

text \<open>
  The layout function with the loop \<^verbatim>\<open>// Also do a backward pass to pull nodes toward
  successors\<close> removed: the y-coordinates are those of the top-down pass.
\<close>

definition computeLayout_top_down :: "('a, 'z) graph_scheme \<Rightarrow> failure + 'a layout" where
  "computeLayout_top_down g =
     (if length (nodes g) = 0 then
        Inr \<lparr>positions = [], layerNodes = [], maxLayer = 0, canvasW = None, canvasH = None\<rparr>
      else
        (case ordered_layers (nodes g) (edges g) of
           Inl e \<Rightarrow> Inl e
         | Inr (pred, succ, maxL, lns) \<Rightarrow>
            (let nodeY = assign_y pred maxL lns;
                 nodeMap = new_Map (map (\<lambda>n. (node_id n, n)) (nodes g));
                 ps = build_positions nodeMap nodeY maxL lns;
                 maxNodeBottom = Math_max (map (\<lambda>p. node_bottom (snd p)) ps)
             in Inr \<lparr>positions = ps, layerNodes = lns, maxLayer = maxL,
                     canvasW = Some (PAD * 2 + (of_int maxL + 1) * H_STEP),
                     canvasH = Some (js_add maxNodeBottom (Num PAD))\<rparr>)))"

text \<open>
  Claim C10. The bottom-up pass changes no y-coordinate: run on the result of the top-down
  pass it returns that map unchanged, and the whole layout equals the layout computed
  without it. Its branch for \<^verbatim>\<open>maxY > nodeY.get(id)\<close> is empty and the other branch
  stores \<^verbatim>\<open>Math.max(nodeY.get(id), ...)\<close> of a bound that does not exceed the old value
  or is replaced by \<^const>\<open>PAD\<close>, below which no node was placed.
\<close>

theorem backward_refinement_changes_nothing:
  "(\<forall>pred succ maxL lns.
      ordered_layers (nodes g) (edges g) = Inr (pred, succ, maxL, lns) \<longrightarrow>
      pull_toward_successors succ maxL lns (assign_y pred maxL lns) =
        Inr (assign_y pred maxL lns)) \<and>
   computeLayout g = computeLayout_top_down g"
proof (intro conjI allI impI)
  fix pred succ maxL lns
  assume a: "ordered_layers (nodes g) (edges g) = Inr (pred, succ, maxL, lns)"
  from ordered_layers_ok [of "nodes g" "edges g"] a obtain lay where
    o: "layering_of (node_id ` set (nodes g)) lay" "length lns = nat (maxL + 1)"
       "mset (concat lns) = mset (map fst lay)" by auto
  note n = layering_nodes [OF o(1) o(3)]
  have "\<forall>k\<in>set (concat lns). \<exists>v. map_of (assign_y pred maxL lns) k = Some v \<and> PAD \<le> v"
    using assign_y_placed [OF o(2) n(1)] by blast
  then show "pull_toward_successors succ maxL lns (assign_y pred maxL lns)
      = Inr (assign_y pred maxL lns)"
    by (rule pull_toward_successors_id [OF o(2)])
next
  show "computeLayout g = computeLayout_top_down g"
  proof (cases "nodes g = []")
    case True
    then show ?thesis by (simp add: computeLayout_def computeLayout_top_down_def)
  next
    case False
    from computeLayout_nonempty [OF False] obtain pred succ maxL lns where
      "ordered_layers (nodes g) (edges g) = Inr (pred, succ, maxL, lns)"
      "pull_toward_successors succ maxL lns (assign_y pred maxL lns) = Inr (assign_y pred maxL lns)"
      by blast
    then show ?thesis
      by (simp add: computeLayout_def computeLayout_top_down_def Let_def)
  qed
qed

definition diamond_pred :: "(string, string list) js_map" where
  "diamond_pred = [(''A'', []), (''B'', [''A'']), (''C'', [''A'']), (''D'', [''B'', ''C''])]"

definition diamond_succ :: "(string, string list) js_map" where
  "diamond_succ = [(''A'', [''B'', ''C'']), (''B'', [''D'']), (''C'', [''D'']), (''D'', [])]"

theorem backward_refinement_changes_nothing_witness:
  "ordered_layers (nodes diamond) (edges diamond) =
     Inr (diamond_pred, diamond_succ, 2, [[''A''], [''B'', ''C''], [''D'']]) \<and>
   pull_toward_successors diamond_succ 2 [[''A''], [''B'', ''C''], [''D'']]
       (assign_y diamond_pred 2 [[''A''], [''B'', ''C''], [''D'']]) =
     Inr (assign_y diamond_pred 2 [[''A''], [''B'', ''C''], [''D'']]) \<and>
   computeLayout diamond = computeLayout_top_down diamond"
proof -
  have h: "ordered_layers (nodes diamond) (edges diamond) =
     Inr (diamond_pred, diamond_succ, 2, [[''A''], [''B'', ''C''], [''D'']])"
    by code_simp
  from backward_refinement_changes_nothing [of diamond] h show ?thesis by blast
qed

section \<open>One position per node\<close>

text \<open>
  Claim C5. When the node ids are pairwise distinct, the keys of the returned position map
  are exactly the node ids, each once: as multisets the keys and the ids coincide. No
  acyclicity is assumed.
\<close>

theorem one_position_per_node:
  assumes "distinct (map node_id (nodes g))"
  shows "\<exists>r. computeLayout g = Inr r \<and>
     mset (map fst (positions r)) = mset (map node_id (nodes g))"
proof (cases "nodes g = []")
  case True
  then show ?thesis by (simp add: computeLayout_def)
next
  case False
  from computeLayout_nonempty [OF False] obtain pred succ maxL lns where
    o: "length lns = nat (maxL + 1)" "set (concat lns) = node_id ` set (nodes g)"
    and c: "computeLayout g =
       Inr \<lparr>positions = build_positions (new_Map (map (\<lambda>n. (node_id n, n)) (nodes g)))
                          (assign_y pred maxL lns) maxL lns,
            layerNodes = lns, maxLayer = maxL,
            canvasW = Some (PAD * 2 + (of_int maxL + 1) * H_STEP),
            canvasH = Some (js_add (Math_max (map (\<lambda>p. node_bottom (snd p))
                        (build_positions (new_Map (map (\<lambda>n. (node_id n, n)) (nodes g)))
                          (assign_y pred maxL lns) maxL lns))) (Num PAD))\<rparr>"
    by blast
  define ps where "ps = build_positions (new_Map (map (\<lambda>n. (node_id n, n)) (nodes g)))
                          (assign_y pred maxL lns) maxL lns"
  have d: "distinct (map fst ps)" unfolding ps_def by (rule build_positions_distinct)
  have "set (map fst ps) = set (map node_id (nodes g))"
    using build_positions_keys [OF o(1)] o(2) by (simp add: ps_def)
  with set_eq_iff_mset_eq_distinct [OF d assms]
  have "mset (map fst ps) = mset (map node_id (nodes g))" by blast
  then show ?thesis unfolding c ps_def by simp
qed

theorem one_position_per_node_witness:
  "distinct (map node_id (nodes diamond)) \<and>
   (\<exists>r. computeLayout diamond = Inr r \<and>
     mset (map fst (positions r)) = mset (map node_id (nodes diamond)))"
proof -
  have h: "distinct (map node_id (nodes diamond))" by (simp add: diamond_def node_of_def)
  from one_position_per_node [OF h] h show ?thesis by blast
qed

section \<open>Edges to unknown nodes\<close>

lemma ordered_layers_adjacency:
  "build_adjacency ns es = build_adjacency ns es' \<Longrightarrow> ordered_layers ns es = ordered_layers ns es'"
  by (simp add: ordered_layers_def)

text \<open>
  Claim C7. An edge whose source or target is the id of no node is skipped when the
  adjacency is built: the predecessor and successor maps are those of the edge list without
  it, the layout is the layout of the graph without it, and the function returns a layout
  (no failure).
\<close>

theorem unknown_edge_dropped:
  assumes "source e \<notin> node_id ` set (nodes g) \<or> target e \<notin> node_id ` set (nodes g)"
    and "edges g = es1 @ e # es2"
  shows "build_adjacency (nodes g) (edges g) = build_adjacency (nodes g) (es1 @ es2) \<and>
         computeLayout g = computeLayout (g\<lparr>edges := es1 @ es2\<rparr>) \<and>
         (\<exists>r. computeLayout g = Inr r)"
proof -
  have a: "build_adjacency (nodes g) (edges g) = build_adjacency (nodes g) (es1 @ es2)"
    unfolding assms(2) by (rule build_adjacency_drop_edge [OF assms(1)])
  have n: "nodes (g\<lparr>edges := es1 @ es2\<rparr>) = nodes g"
    and e: "edges (g\<lparr>edges := es1 @ es2\<rparr>) = es1 @ es2" by simp_all
  have "computeLayout g = computeLayout (g\<lparr>edges := es1 @ es2\<rparr>)"
    unfolding computeLayout_def n e ordered_layers_adjacency [OF a] by (rule refl)
  with a computeLayout_total [of g] show ?thesis by blast
qed

definition dangling :: "string graph" where
  "dangling = \<lparr>nodes = [node_of ''A'' ''op''], edges = [edge_of ''X'' ''A'']\<rparr>"

theorem unknown_edge_dropped_witness:
  "source (edge_of ''X'' ''A'') \<notin> node_id ` set (nodes dangling) \<and>
   edges dangling = [] @ edge_of ''X'' ''A'' # [] \<and>
   build_adjacency (nodes dangling) (edges dangling) = build_adjacency (nodes dangling) ([] @ []) \<and>
   computeLayout dangling = computeLayout (dangling\<lparr>edges := [] @ []\<rparr>) \<and>
   (\<exists>r. computeLayout dangling = Inr r)"
proof -
  have h1: "source (edge_of ''X'' ''A'') \<notin> node_id ` set (nodes dangling) \<or>
    target (edge_of ''X'' ''A'') \<notin> node_id ` set (nodes dangling)"
    by (simp add: dangling_def edge_of_def node_of_def)
  have h2: "edges dangling = [] @ edge_of ''X'' ''A'' # []" by (simp add: dangling_def)
  have h3: "source (edge_of ''X'' ''A'') \<notin> node_id ` set (nodes dangling)"
    by (simp add: dangling_def edge_of_def node_of_def)
  from unknown_edge_dropped [OF h1 h2] h2 h3 show ?thesis by blast
qed

section \<open>Barycenter sort\<close>


text \<open>A barycenter is a finite number or \<open>Infinity\<close>; \<open>below x y\<close> is \<open>x \<le> y\<close> on these.\<close>

definition below :: "num \<Rightarrow> num \<Rightarrow> bool" where
  "below x y \<longleftrightarrow> \<not> positive (js_sub x y)"

definition proper :: "num \<Rightarrow> bool" where
  "proper x \<longleftrightarrow> x = Infinity \<or> (\<exists>q. x = Num q)"

lemma not_positive_self: "\<not> positive (js_sub x x)"
  by (cases x) simp_all

lemma below_total: "proper x \<Longrightarrow> proper y \<Longrightarrow> positive (js_sub x y) \<Longrightarrow> below y x"
  by (auto simp: below_def proper_def)

lemma below_trans: "proper x \<Longrightarrow> proper y \<Longrightarrow> proper z \<Longrightarrow> below x y \<Longrightarrow> below y z \<Longrightarrow> below x z"
  by (auto simp: below_def proper_def)


lemma set_insert_sorted: "set (insert_sorted cmp a bs) = insert a (set bs)"
  by (induction bs) auto

lemma sorted_insert_sorted:
  assumes "\<And>k. proper (f k)"
    and "sorted_wrt (\<lambda>a b. below (f a) (f b)) bs"
  shows "sorted_wrt (\<lambda>a b. below (f a) (f b)) (insert_sorted (\<lambda>a b. js_sub (f a) (f b)) a bs)"
  using assms(2)
proof (induction bs)
  case Nil
  show ?case by simp
next
  case (Cons b bs)
  show ?case
  proof (cases "positive (js_sub (f a) (f b))")
    case True
    have "below (f b) (f a)" by (rule below_total [OF assms(1) assms(1) True])
    with Cons True show ?thesis by (auto simp: set_insert_sorted)
  next
    case False
    then have ab: "below (f a) (f b)" by (simp add: below_def)
    have "below (f a) (f x)" if "x \<in> set bs" for x
    proof -
      from Cons.prems that have "below (f b) (f x)" by simp
      with ab show ?thesis by (rule below_trans [OF assms(1) assms(1) assms(1)])
    qed
    with Cons.prems False ab show ?thesis by simp
  qed
qed

lemma sorted_js_sort:
  assumes "\<And>k. proper (f k)"
  shows "sorted_wrt (\<lambda>a b. below (f a) (f b)) (js_sort (\<lambda>a b. js_sub (f a) (f b)) xs)"
  unfolding js_sort_def
  by (induction xs) (simp_all add: sorted_insert_sorted [OF assms])

lemma stable_insert_sorted:
  "filter (\<lambda>k. f k = v) (insert_sorted (\<lambda>a b. js_sub (f a) (f b)) a bs) =
   filter (\<lambda>k. f k = v) (a # bs)"
proof (induction bs)
  case Nil
  show ?case by simp
next
  case (Cons b bs)
  show ?case
  proof (cases "positive (js_sub (f a) (f b))")
    case True
    then have "f a \<noteq> f b" using not_positive_self [of "f b"] by auto
    with Cons True show ?thesis by auto
  next
    case False
    then show ?thesis by simp
  qed
qed

lemma stable_js_sort:
  "filter (\<lambda>k. f k = v) (js_sort (\<lambda>a b. js_sub (f a) (f b)) xs) = filter (\<lambda>k. f k = v) xs"
  unfolding js_sort_def
  by (induction xs) (simp_all add: stable_insert_sorted)



lemma baryPos_proper: "proper (baryPos k nb pos)"
  by (auto simp: baryPos_def proper_def Let_def split: prod.splits)




lemma below_antisym: "proper x \<Longrightarrow> proper y \<Longrightarrow> below x y \<Longrightarrow> below y x \<Longrightarrow> x = y"
  by (auto simp: below_def proper_def)

lemma sorted_stable_unique:
  assumes p: "\<And>k. proper (f k)"
  shows "sorted_wrt (\<lambda>a b. below (f a) (f b)) ys \<Longrightarrow>
         sorted_wrt (\<lambda>a b. below (f a) (f b)) zs \<Longrightarrow>
         (\<And>v. filter (\<lambda>k. f k = v) ys = filter (\<lambda>k. f k = v) zs) \<Longrightarrow> ys = zs"
proof (induction ys arbitrary: zs)
  case Nil
  show ?case
  proof (cases zs)
    case Nil
    then show ?thesis by simp
  next
    case (Cons z zs')
    with Nil.prems(3) [of "f z"] show ?thesis by simp
  qed
next
  case (Cons y ys)
  from Cons.prems(3) [of "f y"] obtain z zs' where zs: "zs = z # zs'"
    by (cases zs) auto
  have fz: "f z = f y"
  proof (rule ccontr)
    assume ne: "f z \<noteq> f y"
    have "y \<in> set (filter (\<lambda>k. f k = f y) (y # ys))" by simp
    with Cons.prems(3) [of "f y"] have "y \<in> set (filter (\<lambda>k. f k = f y) zs)"
      by (simp only:)
    with ne have "y \<in> set zs'" by (auto simp: zs)
    with Cons.prems(2) have zy: "below (f z) (f y)" by (simp add: zs)
    have "z \<in> set (filter (\<lambda>k. f k = f z) zs)" by (simp add: zs)
    with Cons.prems(3) [of "f z"] have "z \<in> set (filter (\<lambda>k. f k = f z) (y # ys))"
      by (simp only:)
    with ne have "z \<in> set ys" by auto
    with Cons.prems(1) have "below (f y) (f z)" by simp
    with zy have "f z = f y" by (intro below_antisym p)
    with ne show False by simp
  qed
  with Cons.prems(3) [of "f y"] have yz: "y = z" by (simp add: zs)
  have "filter (\<lambda>k. f k = v) ys = filter (\<lambda>k. f k = v) zs'" for v
    using Cons.prems(3) [of v] by (simp add: zs yz split: if_splits)
  with Cons.IH [of zs'] Cons.prems(1,2) have "ys = zs'" by (simp add: zs)
  with yz zs show ?case by simp
qed

text \<open>
  The result of the sort does not depend on the algorithm: any list that is ordered by
  the barycenters and keeps the order of equal barycenters is the list computed here.
\<close>

lemma sort_layer_unique:
  assumes "sorted_wrt (\<lambda>a b. below (baryPos a nb (index_Map adjacent))
                               (baryPos b nb (index_Map adjacent))) ys"
    and "\<And>v. filter (\<lambda>k. baryPos k nb (index_Map adjacent) = v) ys =
              filter (\<lambda>k. baryPos k nb (index_Map adjacent) = v) ids"
  shows "ys = sort_layer nb adjacent ids"
proof (rule sorted_stable_unique [where f = "\<lambda>k. baryPos k nb (index_Map adjacent)"])
  show "proper (baryPos k nb (index_Map adjacent))" for k by (rule baryPos_proper)
  show "sorted_wrt (\<lambda>a b. below (baryPos a nb (index_Map adjacent))
                               (baryPos b nb (index_Map adjacent))) ys" by (rule assms(1))
  show "sorted_wrt (\<lambda>a b. below (baryPos a nb (index_Map adjacent))
                               (baryPos b nb (index_Map adjacent))) (sort_layer nb adjacent ids)"
    unfolding sort_layer_def Let_def by (rule sorted_js_sort) (rule baryPos_proper)
  show "filter (\<lambda>k. baryPos k nb (index_Map adjacent) = v) ys =
        filter (\<lambda>k. baryPos k nb (index_Map adjacent) = v) (sort_layer nb adjacent ids)" for v
    unfolding sort_layer_def Let_def by (simp add: assms(2) stable_js_sort)
qed














section \<open>Cyclic graphs\<close>

text \<open>
  The state in which the loop \<^verbatim>\<open>while (head < queue.length)\<close> ends, and the layer map
  after the loop \<^verbatim>\<open>for (const n of nodes) if (!layer.has(n.id)) layer.set(n.id, 0)\<close>.
\<close>

definition kahn_traversal :: "'a node list \<Rightarrow> 'a edge list \<Rightarrow> failure + 'a kahn" where
  "kahn_traversal ns es =
     (case build_adjacency ns es of (pred, succ) \<Rightarrow>
        (case init_kahn ns pred of
           Inl e \<Rightarrow> Inl e
         | Inr st0 \<Rightarrow> bfs succ 0 st0))"

definition final_layers :: "'a node list \<Rightarrow> 'a edge list \<Rightarrow> failure + ('a, int) js_map" where
  "final_layers ns es =
     (case build_adjacency ns es of (pred, succ) \<Rightarrow> layer_assignment ns pred succ)"

lemma final_layers_traversal:
  "final_layers ns es =
     (case kahn_traversal ns es of Inl e \<Rightarrow> Inl e | Inr st \<Rightarrow> Inr (not_reached ns (layer st)))"
  by (simp add: final_layers_def kahn_traversal_def layer_assignment_def
           split: prod.splits sum.splits)

lemma map_of_not_reached:
  "map_of (not_reached ns lay) k =
     (if k \<in> node_id ` set ns then Some (case map_of lay k of None \<Rightarrow> 0 | Some l \<Rightarrow> l)
      else map_of lay k)"
  unfolding not_reached_def
proof (induction ns arbitrary: lay)
  case Nil
  show ?case by simp
next
  case (Cons n ns)
  show ?case
    by (cases "map_of lay (node_id n)")
       (auto simp: Cons.IH update_conv' split: option.splits)
qed

lemma kahn_traversal_total: "\<exists>st. kahn_traversal ns es = Inr st"
proof -
  obtain pred succ where adj: "build_adjacency ns es = (pred, succ)"
    by (cases "build_adjacency ns es")
  have a: "adjacency_of (node_id ` set ns) es (pred, succ)"
    using adjacency_of_build [of ns es] by (simp add: adj)
  from init_kahn_ok [OF a] obtain st0
    where st0: "init_kahn ns pred = Inr st0" "kahn_ok (node_id ` set ns) st0" by auto
  from bfs_kahn_ok [OF a st0(2), of 0] show ?thesis
    by (auto simp: kahn_traversal_def adj st0)
qed

definition cyclic :: "string graph" where
  "cyclic =
     \<lparr>nodes = [node_of ''A'' ''op'', node_of ''B'' ''op'', node_of ''C'' ''op''],
      edges = [edge_of ''A'' ''B'', edge_of ''B'' ''C'', edge_of ''C'' ''B'']\<rparr>"

definition cyclic_end :: "string kahn" where
  "cyclic_end =
     \<lparr>queue = [''A''], layer = [(''A'', 0), (''B'', 1)],
      inDeg = [(''A'', 0), (''B'', 1), (''C'', 1)]\<rparr>"

definition cyclic_layout :: "string layout" where
  "cyclic_layout =
     \<lparr>positions =
        [(''A'', \<lparr>pos_x = 60, pos_y = 60, pos_w = 250, pos_h = Number 148\<rparr>),
         (''C'', \<lparr>pos_x = 60, pos_y = 280, pos_w = 250, pos_h = Number 148\<rparr>),
         (''B'', \<lparr>pos_x = 390, pos_y = 170, pos_w = 250, pos_h = Number 148\<rparr>)],
      layerNodes = [[''A'', ''C''], [''B'']],
      maxLayer = 1, canvasW = Some 780, canvasH = Some (Num 488)\<rparr>"

text \<open>
  Claim C8, as stated, fails. In the graph \<open>A \<rightarrow> B \<rightarrow> C \<rightarrow> B\<close> the in-degree of \<open>B\<close>
  goes from 2 to 1 and stays there, so \<open>B\<close> is never queued; yet \<open>B\<close> was proposed layer 1
  when \<open>A\<close> was processed and keeps it, because the fallback loop only touches ids that
  have no entry in \<^verbatim>\<open>layer\<close>. Only \<open>C\<close> falls back to layer 0.
\<close>

theorem cyclic_node_keeps_proposed_layer:
  "kahn_traversal (nodes cyclic) (edges cyclic) = Inr cyclic_end \<and>
   ''B'' \<notin> set (queue cyclic_end) \<and>
   map_of (inDeg cyclic_end) ''B'' = Some 1 \<and>
   final_layers (nodes cyclic) (edges cyclic) = Inr [(''A'', 0), (''B'', 1), (''C'', 0)] \<and>
   map_of [(''A'', 0 :: int), (''B'', 1), (''C'', 0)] ''B'' = Some 1 \<and>
   computeLayout cyclic = Inr cyclic_layout"
proof -
  have "kahn_traversal (nodes cyclic) (edges cyclic) = Inr cyclic_end" by code_simp
  moreover have "''B'' \<notin> set (queue cyclic_end)" by (simp add: cyclic_end_def)
  moreover have "map_of (inDeg cyclic_end) ''B'' = Some 1" by (simp add: cyclic_end_def)
  moreover have "final_layers (nodes cyclic) (edges cyclic) =
      Inr [(''A'', 0), (''B'', 1), (''C'', 0)]" by code_simp
  moreover have "computeLayout cyclic = Inr cyclic_layout" by code_simp
  ultimately show ?thesis by simp
qed

text \<open>
  Claim C8, amended. For every input graph, cyclic or not, the traversal ends and the
  layout is returned without failure, with a position for every node. After the
  traversal a node without an entry in \<^verbatim>\<open>layer\<close> is given layer 0; a node with an
  entry keeps it, whether or not it ever reached in-degree 0.
\<close>

theorem unreached_nodes_get_layer_0:
  "(\<exists>st. kahn_traversal (nodes g) (edges g) = Inr st \<and>
         final_layers (nodes g) (edges g) = Inr (not_reached (nodes g) (layer st)) \<and>
         (\<forall>n\<in>set (nodes g).
            map_of (not_reached (nodes g) (layer st)) (node_id n) =
              Some (case map_of (layer st) (node_id n) of None \<Rightarrow> 0 | Some l \<Rightarrow> l))) \<and>
   (\<exists>r. computeLayout g = Inr r \<and>
        (\<forall>n\<in>set (nodes g). \<exists>p. map_of (positions r) (node_id n) = Some p))"
proof
  from kahn_traversal_total obtain st where
    st: "kahn_traversal (nodes g) (edges g) = Inr st" by blast
  have "final_layers (nodes g) (edges g) = Inr (not_reached (nodes g) (layer st))"
    by (simp add: final_layers_traversal st)
  moreover have "\<forall>n\<in>set (nodes g).
            map_of (not_reached (nodes g) (layer st)) (node_id n) =
              Some (case map_of (layer st) (node_id n) of None \<Rightarrow> 0 | Some l \<Rightarrow> l)"
    by (simp add: map_of_not_reached)
  ultimately show "\<exists>st. kahn_traversal (nodes g) (edges g) = Inr st \<and>
         final_layers (nodes g) (edges g) = Inr (not_reached (nodes g) (layer st)) \<and>
         (\<forall>n\<in>set (nodes g).
            map_of (not_reached (nodes g) (layer st)) (node_id n) =
              Some (case map_of (layer st) (node_id n) of None \<Rightarrow> 0 | Some l \<Rightarrow> l))"
    using st by blast
next
  show "\<exists>r. computeLayout g = Inr r \<and>
        (\<forall>n\<in>set (nodes g). \<exists>p. map_of (positions r) (node_id n) = Some p)"
  proof (cases "nodes g = []")
    case True
    then show ?thesis by (simp add: computeLayout_def)
  next
    case False
    from computeLayout_nonempty [OF False] obtain pred succ maxL lns where
      o: "length lns = nat (maxL + 1)" "set (concat lns) = node_id ` set (nodes g)"
      and c: "computeLayout g =
       Inr \<lparr>positions = build_positions (new_Map (map (\<lambda>n. (node_id n, n)) (nodes g)))
                          (assign_y pred maxL lns) maxL lns,
            layerNodes = lns, maxLayer = maxL,
            canvasW = Some (PAD * 2 + (of_int maxL + 1) * H_STEP),
            canvasH = Some (js_add (Math_max (map (\<lambda>p. node_bottom (snd p))
                        (build_positions (new_Map (map (\<lambda>n. (node_id n, n)) (nodes g)))
                          (assign_y pred maxL lns) maxL lns))) (Num PAD))\<rparr>"
      by blast
    define ps where "ps = build_positions (new_Map (map (\<lambda>n. (node_id n, n)) (nodes g)))
                          (assign_y pred maxL lns) maxL lns"
    have "fst ` set ps = node_id ` set (nodes g)"
      using build_positions_keys [OF o(1)] o(2) by (simp add: ps_def)
    then have "\<forall>n\<in>set (nodes g). \<exists>p. map_of ps (node_id n) = Some p"
      by (auto simp: dom_map_of_conv_image_fst [symmetric])
    then show ?thesis unfolding c ps_def by simp
  qed
qed

theorem unreached_nodes_get_layer_0_witness:
  "kahn_traversal (nodes cyclic) (edges cyclic) = Inr cyclic_end \<and>
   node_of ''C'' ''op'' \<in> set (nodes cyclic) \<and>
   map_of (layer cyclic_end) ''C'' = None \<and>
   final_layers (nodes cyclic) (edges cyclic) = Inr (not_reached (nodes cyclic) (layer cyclic_end)) \<and>
   map_of (not_reached (nodes cyclic) (layer cyclic_end)) ''C'' = Some 0 \<and>
   (\<exists>r. computeLayout cyclic = Inr r \<and> (\<exists>p. map_of (positions r) ''C'' = Some p))"
proof -
  have h1: "kahn_traversal (nodes cyclic) (edges cyclic) = Inr cyclic_end" by code_simp
  have h2: "node_of ''C'' ''op'' \<in> set (nodes cyclic)" by (simp add: cyclic_def)
  have h3: "map_of (layer cyclic_end) ''C'' = None" by (simp add: cyclic_end_def)
  have h4: "node_id (node_of ''C'' ''op'') = ''C''" by (simp add: node_of_def)
  from unreached_nodes_get_layer_0 [of cyclic] obtain st r where
    a: "kahn_traversal (nodes cyclic) (edges cyclic) = Inr st"
       "final_layers (nodes cyclic) (edges cyclic) = Inr (not_reached (nodes cyclic) (layer st))"
       "\<forall>n\<in>set (nodes cyclic).
            map_of (not_reached (nodes cyclic) (layer st)) (node_id n) =
              Some (case map_of (layer st) (node_id n) of None \<Rightarrow> 0 | Some l \<Rightarrow> l)"
    and b: "computeLayout cyclic = Inr r"
       "\<forall>n\<in>set (nodes cyclic). \<exists>p. map_of (positions r) (node_id n) = Some p"
    by blast
  from a(1) h1 have st: "st = cyclic_end" by simp
  from a(3) h2 have "map_of (not_reached (nodes cyclic) (layer st)) (node_id (node_of ''C'' ''op'')) =
      Some (case map_of (layer st) (node_id (node_of ''C'' ''op'')) of None \<Rightarrow> 0 | Some l \<Rightarrow> l)"
    by (rule bspec)
  then have c: "map_of (not_reached (nodes cyclic) (layer cyclic_end)) ''C'' = Some 0"
    by (simp add: st h3 h4)
  from b(2) h2 have "\<exists>p. map_of (positions r) (node_id (node_of ''C'' ''op'')) = Some p"
    by (rule bspec)
  then have d: "\<exists>p. map_of (positions r) ''C'' = Some p" by (simp add: h4)
  from h1 h2 h3 a(2) c b(1) d show ?thesis unfolding st by blast
qed

section \<open>Longest-path layering of acyclic graphs\<close>

lemma layer_relax:
  "map_of (layer (relax c st n)) k =
     (if k = n then Some (case map_of (layer st) n of None \<Rightarrow> c + 1 | Some l \<Rightarrow> max l (c + 1))
      else map_of (layer st) k)"
  by (auto simp: relax_def Let_def update_conv' split: option.splits)

lemma inDeg_relax:
  "map_of (inDeg (relax c st n)) k =
     (if k = n then map_option (\<lambda>d. d - 1) (map_of (inDeg st) n) else map_of (inDeg st) k)"
  by (auto simp: relax_def Let_def update_conv' split: option.splits)

lemma queue_relax:
  "queue (relax c st n) =
     (if map_of (inDeg st) n = Some 1 then queue st @ [n] else queue st)"
  by (auto simp: relax_def Let_def split: option.splits)

lemma layer_foldl_relax:
  "map_of (layer (foldl (relax c) st ns)) k =
     (if k \<in> set ns
      then Some (case map_of (layer st) k of None \<Rightarrow> c + 1 | Some l \<Rightarrow> max l (c + 1))
      else map_of (layer st) k)"
proof (induction ns arbitrary: st)
  case Nil
  show ?case by simp
next
  case (Cons n ns)
  show ?case
    by (simp add: Cons.IH layer_relax split: option.splits)
qed

lemma inDeg_foldl_relax:
  "map_of (inDeg (foldl (relax c) st ns)) k =
     map_option (\<lambda>d. d - int (count_list ns k)) (map_of (inDeg st) k)"
proof (induction ns arbitrary: st)
  case Nil
  show ?case by (simp add: option.map_ident)
next
  case (Cons n ns)
  show ?case
    by (cases "map_of (inDeg st) n") (auto simp: Cons.IH inDeg_relax option.map_comp o_def)
qed

lemma queue_foldl_relax:
  assumes "\<forall>k\<in>set ns. \<exists>d. map_of (inDeg st) k = Some d \<and> int (count_list ns k) \<le> d"
  shows "\<exists>qs. queue (foldl (relax c) st ns) = queue st @ qs \<and> distinct qs \<and>
              set qs = {k \<in> set ns. map_of (inDeg st) k = Some (int (count_list ns k))}"
  using assms
proof (induction ns arbitrary: st)
  case Nil
  show ?case by simp
next
  case (Cons n ns)
  from Cons.prems obtain d where d: "map_of (inDeg st) n = Some d" "int (count_list ns n) + 1 \<le> d"
    by auto
  let ?st = "relax c st n"
  have i: "map_of (inDeg ?st) k = (if k = n then Some (d - 1) else map_of (inDeg st) k)" for k
    by (simp add: inDeg_relax d)
  have "\<forall>k\<in>set ns. \<exists>e. map_of (inDeg ?st) k = Some e \<and> int (count_list ns k) \<le> e"
  proof
    fix k assume k: "k \<in> set ns"
    show "\<exists>e. map_of (inDeg ?st) k = Some e \<and> int (count_list ns k) \<le> e"
    proof (cases "k = n")
      case True
      with d show ?thesis by (simp add: i)
    next
      case False
      from Cons.prems k obtain e where
        "map_of (inDeg st) k = Some e" "int (count_list (n # ns) k) \<le> e" by auto
      with False show ?thesis by (simp add: i)
    qed
  qed
  from Cons.IH [OF this] obtain qs where
    qs: "queue (foldl (relax c) ?st ns) = queue ?st @ qs" "distinct qs"
        "set qs = {k \<in> set ns. map_of (inDeg ?st) k = Some (int (count_list ns k))}"
    by blast
  show ?case
  proof (cases "d = 1")
    case True
    with d(2) have "count_list ns n = 0" by simp
    then have n: "n \<notin> set ns" by (simp add: count_list_0_iff)
    have "queue (foldl (relax c) st (n # ns)) = queue st @ (n # qs)"
      using qs(1) True d(1) by (simp add: queue_relax)
    moreover have "distinct (n # qs)" using qs(2,3) n by simp
    moreover have "set (n # qs) =
        {k \<in> set (n # ns). map_of (inDeg st) k = Some (int (count_list (n # ns) k))}"
    proof (rule set_eqI)
      fix k
      show "k \<in> set (n # qs) \<longleftrightarrow>
        k \<in> {k \<in> set (n # ns). map_of (inDeg st) k = Some (int (count_list (n # ns) k))}"
      proof (cases "k = n")
        case True
        with d(1) \<open>d = 1\<close> \<open>count_list ns n = 0\<close> show ?thesis by simp
      next
        case False
        then have "k \<in> set (n # qs) \<longleftrightarrow> k \<in> set qs" by simp
        also have "\<dots> \<longleftrightarrow> k \<in> set ns \<and> map_of (inDeg st) k = Some (int (count_list ns k))"
          using False by (simp add: qs(3) i)
        finally show ?thesis using False by simp
      qed
    qed
    ultimately show ?thesis by blast
  next
    case False
    have "queue (foldl (relax c) st (n # ns)) = queue st @ qs"
      using qs(1) False d(1) by (simp add: queue_relax)
    moreover have "set qs =
        {k \<in> set (n # ns). map_of (inDeg st) k = Some (int (count_list (n # ns) k))}"
    proof (rule set_eqI)
      fix k
      have m: "n \<in> set ns" if "d = int (count_list ns n) + 1"
      proof -
        from that False have "count_list ns n \<noteq> 0" by simp
        then show ?thesis by (simp add: count_list_0_iff)
      qed
      show "k \<in> set qs \<longleftrightarrow>
        k \<in> {k \<in> set (n # ns). map_of (inDeg st) k = Some (int (count_list (n # ns) k))}"
      proof (cases "k = n")
        case True
        have "n \<in> set qs \<longleftrightarrow> n \<in> set ns \<and> d - 1 = int (count_list ns n)"
          by (simp add: qs(3) i)
        also have "\<dots> \<longleftrightarrow> d = int (count_list ns n) + 1"
          using m by auto
        finally show ?thesis using True d(1) by auto
      next
        case False
        then have "k \<in> set qs \<longleftrightarrow> k \<in> set ns \<and> map_of (inDeg st) k = Some (int (count_list ns k))"
          by (simp add: qs(3) i)
        then show ?thesis using False by simp
      qed
    qed
    ultimately show ?thesis using qs(2) by blast
  qed
qed


definition kahn_inv :: "'a set \<Rightarrow> 'a edge list \<Rightarrow> nat \<Rightarrow> 'a kahn \<Rightarrow> bool" where
  "kahn_inv V es head st \<longleftrightarrow>
     distinct (queue st) \<and> set (queue st) \<subseteq> V \<and>
     (\<forall>n\<in>V. map_of (inDeg st) n =
        Some (int (length (filter (\<lambda>e. target e = n \<and> source e \<notin> set (take head (queue st))) es)))) \<and>
     (\<forall>n\<in>V. n \<in> set (queue st) \<longleftrightarrow> map_of (inDeg st) n = Some 0) \<and>
     (\<forall>n\<in>V. (\<forall>e\<in>set es. target e \<noteq> n) \<longrightarrow> map_of (layer st) n = Some 0) \<and>
     (\<forall>n l. map_of (layer st) n = Some l \<longrightarrow>
        n \<in> V \<and>
        ((\<forall>e\<in>set es. target e \<noteq> n) \<and> l = 0 \<or>
         (\<exists>e\<in>set es. target e = n \<and> source e \<in> set (take head (queue st)) \<and>
                     map_of (layer st) (source e) = Some (l - 1)))) \<and>
     (\<forall>e\<in>set es. source e \<in> set (take head (queue st)) \<longrightarrow>
        (\<exists>l l'. map_of (layer st) (source e) = Some l \<and>
                map_of (layer st) (target e) = Some l' \<and> l + 1 \<le> l')) \<and>
     (\<forall>n\<in>set (queue st). map_of (layer st) n \<noteq> None)"

lemma count_list_map_filter:
  "count_list (map f (filter P xs)) k = length (filter (\<lambda>x. f x = k \<and> P x) xs)"
  by (induction xs) auto

lemma length_filter_split:
  "length (filter P xs) =
     length (filter (\<lambda>x. P x \<and> Q x) xs) + length (filter (\<lambda>x. P x \<and> \<not> Q x) xs)"
  by (induction xs) auto

lemma nth_notin_take: "distinct xs \<Longrightarrow> i < length xs \<Longrightarrow> xs ! i \<notin> set (take i xs)"
proof -
  assume d: "distinct xs" and i: "i < length xs"
  from i have "xs = take i xs @ xs ! i # drop (Suc i) xs" by (rule id_take_nth_drop)
  with d have "distinct (take i xs @ xs ! i # drop (Suc i) xs)" by simp
  then show ?thesis by simp
qed

lemma kahn_inv_step:
  assumes valid: "\<forall>e\<in>set es. source e \<in> V \<and> target e \<in> V"
    and inv: "kahn_inv V es head st"
    and head: "head < length (queue st)"
    and c: "map_of (layer st) (queue st ! head) = Some c"
  shows "kahn_inv V es (head + 1)
           (foldl (relax c) st (map target (filter (\<lambda>e. source e = queue st ! head) es)))"
proof -
  define cur where "cur = queue st ! head"
  define dn where "dn = set (take head (queue st))"
  define ns where "ns = map target (filter (\<lambda>e. source e = cur) es)"
  define st' where "st' = foldl (relax c) st ns"
  define pend where "pend = (\<lambda>D n. int (length (filter (\<lambda>e. target e = n \<and> source e \<notin> D) es)))"
  from inv have
    dq: "distinct (queue st)" and qV: "set (queue st) \<subseteq> V"
    and D: "\<And>n. n \<in> V \<Longrightarrow> map_of (inDeg st) n = Some (pend dn n)"
    and Z: "\<And>n. n \<in> V \<Longrightarrow> n \<in> set (queue st) \<longleftrightarrow> map_of (inDeg st) n = Some 0"
    and L1: "\<And>n. n \<in> V \<Longrightarrow> \<forall>e\<in>set es. target e \<noteq> n \<Longrightarrow> map_of (layer st) n = Some 0"
    and L2: "\<And>n l. map_of (layer st) n = Some l \<Longrightarrow>
        n \<in> V \<and> ((\<forall>e\<in>set es. target e \<noteq> n) \<and> l = 0 \<or>
         (\<exists>e\<in>set es. target e = n \<and> source e \<in> dn \<and> map_of (layer st) (source e) = Some (l - 1)))"
    and L3: "\<And>e. e \<in> set es \<Longrightarrow> source e \<in> dn \<Longrightarrow>
        \<exists>l l'. map_of (layer st) (source e) = Some l \<and>
                map_of (layer st) (target e) = Some l' \<and> l + 1 \<le> l'"
    and L4: "\<And>n. n \<in> set (queue st) \<Longrightarrow> map_of (layer st) n \<noteq> None"
    unfolding kahn_inv_def dn_def pend_def by simp_all
  have curq: "cur \<in> set (queue st)" using head by (simp add: cur_def)
  with qV have curV: "cur \<in> V" by blast
  have curd: "cur \<notin> dn" unfolding cur_def dn_def by (rule nth_notin_take [OF dq head])
  have dnq: "dn \<subseteq> set (queue st)" unfolding dn_def by (rule set_take_subset)
  have cnt: "int (count_list ns k) = int (length (filter (\<lambda>e. target e = k \<and> source e = cur) es))" for k
    unfolding ns_def by (simp add: count_list_map_filter)
  have split: "pend dn k = int (count_list ns k) + pend (insert cur dn) k" for k
  proof -
    have "filter (\<lambda>e. (target e = k \<and> source e \<notin> dn) \<and> source e = cur) es =
          filter (\<lambda>e. target e = k \<and> source e = cur) es"
      using curd by (intro filter_cong) auto
    moreover have "filter (\<lambda>e. (target e = k \<and> source e \<notin> dn) \<and> source e \<noteq> cur) es =
          filter (\<lambda>e. target e = k \<and> source e \<notin> insert cur dn) es"
      by (intro filter_cong) auto
    ultimately show ?thesis
      using length_filter_split [of "\<lambda>e. target e = k \<and> source e \<notin> dn" es "\<lambda>e. source e = cur"]
      by (simp add: pend_def cnt)
  qed
  have pend0: "0 \<le> pend X k" for X k by (simp add: pend_def)
  have nsV: "set ns \<subseteq> V" using valid by (auto simp: ns_def)
  have ns_edge: "k \<in> set ns \<longleftrightarrow> (\<exists>e\<in>set es. source e = cur \<and> target e = k)" for k
    by (auto simp: ns_def)
  have ns_pos: "0 < count_list ns k" if "k \<in> set ns" for k
    using that count_list_0_iff [of ns k] by auto
  have nsq: "k \<notin> set (queue st)" if "k \<in> set ns" for k
  proof
    assume "k \<in> set (queue st)"
    with Z [of k] D [of k] nsV that have "pend dn k = 0" by auto
    with split [of k] pend0 [of "insert cur dn" k] ns_pos [OF that] show False by simp
  qed
  have pre: "\<forall>k\<in>set ns. \<exists>d. map_of (inDeg st) k = Some d \<and> int (count_list ns k) \<le> d"
  proof
    fix k assume "k \<in> set ns"
    with nsV have "map_of (inDeg st) k = Some (pend dn k)" by (intro D) auto
    moreover have "int (count_list ns k) \<le> pend dn k"
      using split [of k] pend0 [of "insert cur dn" k] by simp
    ultimately show "\<exists>d. map_of (inDeg st) k = Some d \<and> int (count_list ns k) \<le> d" by blast
  qed
  from queue_foldl_relax [OF pre, of c] obtain qs where
    q': "queue st' = queue st @ qs" and dqs: "distinct qs"
    and sqs: "set qs = {k \<in> set ns. map_of (inDeg st) k = Some (int (count_list ns k))}"
    unfolding st'_def by blast
  have lay': "map_of (layer st') k =
     (if k \<in> set ns
      then Some (case map_of (layer st) k of None \<Rightarrow> c + 1 | Some l \<Rightarrow> max l (c + 1))
      else map_of (layer st) k)" for k
    unfolding st'_def by (rule layer_foldl_relax)
  have deg': "map_of (inDeg st') k = map_option (\<lambda>d. d - int (count_list ns k)) (map_of (inDeg st) k)" for k
    unfolding st'_def by (rule inDeg_foldl_relax)
  have dn': "set (take (head + 1) (queue st')) = insert cur dn"
    using head by (simp add: q' take_Suc_conv_app_nth cur_def dn_def)
  have keep: "map_of (layer st') k = map_of (layer st) k" if "k \<in> set (queue st)" for k
    using nsq [of k] that by (auto simp: lay')
  have mono: "\<exists>l'. map_of (layer st') k = Some l' \<and> l \<le> l'" if "map_of (layer st) k = Some l" for k l
    using that by (simp add: lay')
  have curl: "map_of (layer st') cur = Some c"
    using keep [OF curq] c by (simp add: cur_def)
  \<comment> \<open>the conjuncts of the invariant for the new state\<close>
  have Q': "distinct (queue st')" "set (queue st') \<subseteq> V"
  proof -
    have "set qs \<inter> set (queue st) = {}" using sqs nsq by auto
    with dq dqs show "distinct (queue st')" by (auto simp: q')
    from sqs nsV qV show "set (queue st') \<subseteq> V" by (auto simp: q')
  qed
  have D': "map_of (inDeg st') n = Some (pend (insert cur dn) n)" if "n \<in> V" for n
    using D [OF that] split [of n] by (simp add: deg')
  have Z': "n \<in> set (queue st') \<longleftrightarrow> map_of (inDeg st') n = Some 0" if "n \<in> V" for n
  proof
    assume "n \<in> set (queue st')"
    then consider "n \<in> set (queue st)" | "n \<in> set qs" by (auto simp: q')
    then show "map_of (inDeg st') n = Some 0"
    proof cases
      case 1
      with Z [OF that] D [OF that] have "pend dn n = 0" by simp
      with split [of n] pend0 [of "insert cur dn" n] have "pend (insert cur dn) n = 0" by simp
      with D' [OF that] show ?thesis by simp
    next
      case 2
      with sqs have "map_of (inDeg st) n = Some (int (count_list ns n))" by simp
      then show ?thesis by (simp add: deg')
    qed
  next
    assume "map_of (inDeg st') n = Some 0"
    with D' [OF that] have z: "pend (insert cur dn) n = 0" by simp
    show "n \<in> set (queue st')"
    proof (cases "n \<in> set ns")
      case True
      from D [OF that] split [of n] z have "map_of (inDeg st) n = Some (int (count_list ns n))"
        by simp
      with True sqs show ?thesis by (simp add: q')
    next
      case False
      then have "count_list ns n = 0" by (simp add: count_list_0_iff)
      with D [OF that] split [of n] z have "map_of (inDeg st) n = Some 0" by simp
      with Z [OF that] show ?thesis by (simp add: q')
    qed
  qed
  have L1': "map_of (layer st') n = Some 0" if "n \<in> V" "\<forall>e\<in>set es. target e \<noteq> n" for n
  proof -
    from that(2) have "n \<notin> set ns" by (auto simp: ns_edge)
    with L1 [OF that] show ?thesis by (simp add: lay')
  qed
  have stable: "map_of (layer st') (source e) = map_of (layer st) (source e)"
    if "source e \<in> dn" for e
    using that dnq by (intro keep) auto
  have L2': "n \<in> V \<and> ((\<forall>e\<in>set es. target e \<noteq> n) \<and> l = 0 \<or>
         (\<exists>e\<in>set es. target e = n \<and> source e \<in> insert cur dn \<and>
                     map_of (layer st') (source e) = Some (l - 1)))"
    if "map_of (layer st') n = Some l" for n l
  proof -
    have old: ?thesis if o: "map_of (layer st) n = Some l"
    proof -
      from L2 [OF o] have nV: "n \<in> V" and
        alt: "(\<forall>e\<in>set es. target e \<noteq> n) \<and> l = 0 \<or>
         (\<exists>e\<in>set es. target e = n \<and> source e \<in> dn \<and> map_of (layer st) (source e) = Some (l - 1))"
        by blast+
      show ?thesis
      proof (cases "(\<forall>e\<in>set es. target e \<noteq> n) \<and> l = 0")
        case True
        with nV show ?thesis by blast
      next
        case False
        with alt obtain e where e: "e \<in> set es" "target e = n" "source e \<in> dn"
          "map_of (layer st) (source e) = Some (l - 1)" by blast
        from stable [OF e(3)] e(4) have "map_of (layer st') (source e) = Some (l - 1)" by simp
        with e nV show ?thesis by blast
      qed
    qed
    show ?thesis
    proof (cases "n \<in> set ns")
      case False
      with that have "map_of (layer st) n = Some l" by (simp add: lay')
      then show ?thesis by (rule old)
    next
      case True
      then obtain e where e: "e \<in> set es" "source e = cur" "target e = n"
        by (auto simp: ns_edge)
      show ?thesis
      proof (cases "map_of (layer st) n = Some l")
        case True
        then show ?thesis by (rule old)
      next
        case False
        with that \<open>n \<in> set ns\<close> have "l = c + 1"
          by (auto simp: lay' max_def split: option.splits if_splits)
        with e curl nsV \<open>n \<in> set ns\<close> show ?thesis by auto
      qed
    qed
  qed
  have L3': "\<exists>l l'. map_of (layer st') (source e) = Some l \<and>
                map_of (layer st') (target e) = Some l' \<and> l + 1 \<le> l'"
    if "e \<in> set es" "source e \<in> insert cur dn" for e
  proof (cases "source e = cur")
    case True
    with that(1) have "target e \<in> set ns" by (auto simp: ns_edge)
    then have "\<exists>l'. map_of (layer st') (target e) = Some l' \<and> c + 1 \<le> l'"
      by (auto simp: lay' split: option.splits)
    with curl True show ?thesis by auto
  next
    case False
    with that(2) have s: "source e \<in> dn" by simp
    from L3 [OF that(1) s] obtain l l' where
      l: "map_of (layer st) (source e) = Some l" "map_of (layer st) (target e) = Some l'" "l + 1 \<le> l'"
      by blast
    from mono [OF l(2)] obtain l'' where "map_of (layer st') (target e) = Some l''" "l' \<le> l''"
      by blast
    with l stable [OF s] show ?thesis by auto
  qed
  have L4': "map_of (layer st') n \<noteq> None" if "n \<in> set (queue st')" for n
  proof -
    from that consider "n \<in> set (queue st)" | "n \<in> set qs" by (auto simp: q')
    then show ?thesis
    proof cases
      case 1
      with L4 [OF 1] keep [OF 1] show ?thesis by simp
    next
      case 2
      with sqs have "n \<in> set ns" by simp
      then show ?thesis by (simp add: lay')
    qed
  qed
  have "kahn_inv V es (head + 1) st'"
    unfolding kahn_inv_def dn'
  proof (intro conjI ballI allI impI)
    show "distinct (queue st')" "set (queue st') \<subseteq> V" by (rule Q')+
  next
    fix n assume "n \<in> V"
    then show "map_of (inDeg st') n =
        Some (int (length (filter (\<lambda>e. target e = n \<and> source e \<notin> insert cur dn) es)))"
      using D' by (simp add: pend_def)
  next
    fix n assume "n \<in> V"
    then show "n \<in> set (queue st') \<longleftrightarrow> map_of (inDeg st') n = Some 0" by (rule Z')
  next
    fix n assume "n \<in> V" "\<forall>e\<in>set es. target e \<noteq> n"
    then show "map_of (layer st') n = Some 0" by (rule L1')
  next
    fix n l assume a: "map_of (layer st') n = Some l"
    from L2' [OF a] show "n \<in> V" by (rule conjunct1)
    from L2' [OF a] show "(\<forall>e\<in>set es. target e \<noteq> n) \<and> l = 0 \<or>
         (\<exists>e\<in>set es. target e = n \<and> source e \<in> insert cur dn \<and>
                     map_of (layer st') (source e) = Some (l - 1))" by (rule conjunct2)
  next
    fix e assume "e \<in> set es" "source e \<in> insert cur dn"
    then show "\<exists>l l'. map_of (layer st') (source e) = Some l \<and>
                map_of (layer st') (target e) = Some l' \<and> l + 1 \<le> l'" by (rule L3')
  next
    fix n assume "n \<in> set (queue st')"
    then show "map_of (layer st') n \<noteq> None" by (rule L4')
  qed
  then show ?thesis by (simp add: st'_def ns_def cur_def)
qed


lemma map_of_new_Map_fun:
  "map_of (new_Map (map (\<lambda>n. (g n, f (g n))) ns)) k = (if k \<in> g ` set ns then Some (f k) else None)"
proof -
  have "map_of (map (\<lambda>n. (g n, f (g n))) xs) k = (if k \<in> g ` set xs then Some (f k) else None)"
    for xs
    by (induction xs) auto
  from this [of "rev ns"] show ?thesis by (simp add: map_of_new_Map rev_map)
qed

lemma map_of_layer0:
  "map_of (foldl (\<lambda>m k. AList.update k (0::int) m) m0 ks) k =
     (if k \<in> set ks then Some 0 else map_of m0 k)"
  by (induction ks arbitrary: m0) (auto simp: update_conv')

lemma init_kahn_eq:
  assumes "adjacency_of V es adj" "node_id ` set ns \<subseteq> V"
  shows "init_kahn ns (fst adj) =
     Inr \<lparr>queue = map node_id (filter (\<lambda>n. map_of (new_Map
                (map (\<lambda>n. (node_id n, int (length (preds_of V es (node_id n))))) ns)) (node_id n) = Some 0) ns),
          layer = foldl (\<lambda>m k. AList.update k (0::int) m) []
             (map node_id (filter (\<lambda>n. map_of (new_Map
                (map (\<lambda>n. (node_id n, int (length (preds_of V es (node_id n))))) ns)) (node_id n) = Some 0) ns)),
          inDeg = new_Map (map (\<lambda>n. (node_id n, int (length (preds_of V es (node_id n))))) ns)\<rparr>"
  by (simp add: init_kahn_def in_degrees_adjacency [OF assms] Let_def)

lemma kahn_inv_init:
  assumes adj: "adjacency_of (node_id ` set ns) es adj"
    and dist: "distinct (map node_id ns)"
    and valid: "\<forall>e\<in>set es. source e \<in> node_id ` set ns \<and> target e \<in> node_id ` set ns"
  shows "\<exists>st0. init_kahn ns (fst adj) = Inr st0 \<and> kahn_inv (node_id ` set ns) es 0 st0"
proof -
  let ?V = "node_id ` set ns"
  define dg where "dg = new_Map (map (\<lambda>n. (node_id n, int (length (preds_of ?V es (node_id n))))) ns)"
  define q where "q = map node_id (filter (\<lambda>n. map_of dg (node_id n) = Some 0) ns)"
  define l where "l = foldl (\<lambda>m k. AList.update k (0::int) m) [] q"
  have i: "init_kahn ns (fst adj) = Inr \<lparr>queue = q, layer = l, inDeg = dg\<rparr>"
    using init_kahn_eq [OF adj subset_refl] by (simp add: dg_def q_def l_def)
  have p: "preds_of ?V es k = map source (filter (\<lambda>e. target e = k) es)" for k
    unfolding preds_of_def using valid by (intro arg_cong [where f = "map source"] filter_cong) auto
  have dg: "map_of dg k = (if k \<in> ?V then Some (int (length (filter (\<lambda>e. target e = k) es))) else None)"
    for k
    using map_of_new_Map_fun [of node_id "\<lambda>k. int (length (preds_of ?V es k))" ns k]
    by (simp add: dg_def p)
  have l: "map_of l k = (if k \<in> set q then Some 0 else None)" for k
    unfolding l_def by (simp add: map_of_layer0)
  have q: "k \<in> set q \<longleftrightarrow> k \<in> ?V \<and> map_of dg k = Some 0" for k
    by (auto simp: q_def)
  have dq: "distinct q" unfolding q_def using dist by (rule distinct_map_filter)
  have root: "map_of dg k = Some 0 \<longleftrightarrow> (\<forall>e\<in>set es. target e \<noteq> k)" if "k \<in> ?V" for k
    using that by (auto simp: dg filter_empty_conv)
  have "kahn_inv ?V es 0 \<lparr>queue = q, layer = l, inDeg = dg\<rparr>"
    unfolding kahn_inv_def
  proof (intro conjI ballI allI impI)
    show "distinct (queue \<lparr>queue = q, layer = l, inDeg = dg\<rparr>)" using dq by simp
    show "set (queue \<lparr>queue = q, layer = l, inDeg = dg\<rparr>) \<subseteq> ?V" using q by auto
  next
    fix n assume "n \<in> ?V"
    then show "map_of (inDeg \<lparr>queue = q, layer = l, inDeg = dg\<rparr>) n =
        Some (int (length (filter (\<lambda>e. target e = n \<and>
           source e \<notin> set (take 0 (queue \<lparr>queue = q, layer = l, inDeg = dg\<rparr>))) es)))"
      by (simp add: dg)
  next
    fix n assume "n \<in> ?V"
    then show "n \<in> set (queue \<lparr>queue = q, layer = l, inDeg = dg\<rparr>) \<longleftrightarrow>
        map_of (inDeg \<lparr>queue = q, layer = l, inDeg = dg\<rparr>) n = Some 0"
      by (simp add: q)
  next
    fix n assume "n \<in> ?V" "\<forall>e\<in>set es. target e \<noteq> n"
    then show "map_of (layer \<lparr>queue = q, layer = l, inDeg = dg\<rparr>) n = Some 0"
      using root [of n] by (simp add: l q)
  next
    fix n v assume a: "map_of (layer \<lparr>queue = q, layer = l, inDeg = dg\<rparr>) n = Some v"
    then have n: "n \<in> set q" "v = 0" by (auto simp: l split: if_splits)
    with q [of n] show "n \<in> ?V" by simp
    from n q [of n] root [of n] have "(\<forall>e\<in>set es. target e \<noteq> n) \<and> v = 0" by simp
    then show "(\<forall>e\<in>set es. target e \<noteq> n) \<and> v = 0 \<or>
         (\<exists>e\<in>set es. target e = n \<and>
             source e \<in> set (take 0 (queue \<lparr>queue = q, layer = l, inDeg = dg\<rparr>)) \<and>
             map_of (layer \<lparr>queue = q, layer = l, inDeg = dg\<rparr>) (source e) = Some (v - 1))"
      by (rule disjI1)
  next
    fix e assume "source e \<in> set (take 0 (queue \<lparr>queue = q, layer = l, inDeg = dg\<rparr>))"
    then show "\<exists>v v'. map_of (layer \<lparr>queue = q, layer = l, inDeg = dg\<rparr>) (source e) = Some v \<and>
                map_of (layer \<lparr>queue = q, layer = l, inDeg = dg\<rparr>) (target e) = Some v' \<and> v + 1 \<le> v'"
      by simp
  next
    fix n assume "n \<in> set (queue \<lparr>queue = q, layer = l, inDeg = dg\<rparr>)"
    then show "map_of (layer \<lparr>queue = q, layer = l, inDeg = dg\<rparr>) n \<noteq> None"
      by (simp add: l)
  qed
  with i show ?thesis by blast
qed

lemma bfs_kahn_inv:
  assumes adj: "adjacency_of V es adj"
    and valid: "\<forall>e\<in>set es. source e \<in> V \<and> target e \<in> V"
    and inv: "kahn_inv V es head st"
  shows "\<exists>st'. bfs (snd adj) head st = Inr st' \<and> (\<exists>h. length (queue st') \<le> h \<and> kahn_inv V es h st')"
proof -
  have s: "map_of (snd adj) k = (if k \<in> V then Some (map target (filter (\<lambda>e. source e = k) es)) else None)"
    for k
  proof -
    have "succs_of V es k = map target (filter (\<lambda>e. source e = k) es)"
      unfolding succs_of_def using valid
      by (intro arg_cong [where f = "map target"] filter_cong) auto
    with adj show ?thesis by (simp add: adjacency_of_def)
  qed
  show ?thesis
  proof (rule bfs_invariant [where I = "kahn_inv V es"])
    show "kahn_inv V es head st" by (rule inv)
  next
    fix head st assume a: "kahn_inv V es head st" "head < length (queue st)"
    then have "queue st ! head \<in> set (queue st)" by simp
    with a(1) have "queue st ! head \<in> V" "map_of (layer st) (queue st ! head) \<noteq> None"
      unfolding kahn_inv_def by blast+
    then show "map_of (layer st) (queue st ! head) \<noteq> None \<and>
               map_of (snd adj) (queue st ! head) \<noteq> None"
      by (simp add: s)
  next
    fix head st c nexts
    assume a: "kahn_inv V es head st" "head < length (queue st)"
      "map_of (layer st) (queue st ! head) = Some c"
      "map_of (snd adj) (queue st ! head) = Some nexts"
    from a(4) have "nexts = map target (filter (\<lambda>e. source e = queue st ! head) es)"
      by (simp add: s split: if_splits)
    with kahn_inv_step [OF valid a(1,2,3)]
    show "kahn_inv V es (head + 1) (foldl (relax c) st nexts)" by simp
  qed
qed


lemma kahn_inv_all_queued:
  assumes valid: "\<forall>e\<in>set es. source e \<in> V \<and> target e \<in> V"
    and acyc: "acyclic ((\<lambda>e. (source e, target e)) ` set es)"
    and inv: "kahn_inv V es h st" and h: "length (queue st) \<le> h"
  shows "V \<subseteq> set (queue st)"
proof (rule ccontr)
  assume "\<not> V \<subseteq> set (queue st)"
  then obtain x where x: "x \<in> V - set (queue st)" by blast
  have "wf ((\<lambda>e. (source e, target e)) ` set es)"
    by (rule finite_acyclic_wf [OF _ acyc]) simp
  from wfE_min [OF this x] obtain z where
    z: "z \<in> V - set (queue st)"
    and m: "\<And>y. (y, z) \<in> (\<lambda>e. (source e, target e)) ` set es \<Longrightarrow> y \<notin> V - set (queue st)"
    by blast
  from h have t: "take h (queue st) = queue st" by simp
  from inv z have
    "map_of (inDeg st) z =
       Some (int (length (filter (\<lambda>e. target e = z \<and> source e \<notin> set (queue st)) es)))"
    "map_of (inDeg st) z \<noteq> Some 0"
    unfolding kahn_inv_def t by blast+
  then have "filter (\<lambda>e. target e = z \<and> source e \<notin> set (queue st)) es \<noteq> []" by auto
  then obtain e where e: "e \<in> set es" "target e = z" "source e \<notin> set (queue st)"
    by (auto simp: filter_empty_conv)
  from e(1) valid have "source e \<in> V" by blast
  moreover from e(1,2) have "(source e, z) \<in> (\<lambda>e. (source e, target e)) ` set es" by force
  ultimately show False using m [of "source e"] e(3) by blast
qed

lemma kahn_inv_final:
  assumes valid: "\<forall>e\<in>set es. source e \<in> V \<and> target e \<in> V"
    and acyc: "acyclic ((\<lambda>e. (source e, target e)) ` set es)"
    and inv: "kahn_inv V es h st" and h: "length (queue st) \<le> h"
    and n: "n \<in> V"
  shows "\<exists>l. map_of (layer st) n = Some l \<and>
          ((\<forall>e\<in>set es. target e \<noteq> n) \<longrightarrow> l = 0) \<and>
          ((\<exists>e\<in>set es. target e = n) \<longrightarrow>
             (\<exists>e\<in>set es. target e = n \<and> map_of (layer st) (source e) = Some (l - 1))) \<and>
          (\<forall>e\<in>set es. target e = n \<longrightarrow>
             (\<exists>lp. map_of (layer st) (source e) = Some lp \<and> lp + 1 \<le> l))"
proof -
  from h have t: "take h (queue st) = queue st" by simp
  from kahn_inv_all_queued [OF valid acyc inv h] have all: "V \<subseteq> set (queue st)" .
  from inv have
    L2: "\<And>n l. map_of (layer st) n = Some l \<Longrightarrow>
        (\<forall>e\<in>set es. target e \<noteq> n) \<and> l = 0 \<or>
         (\<exists>e\<in>set es. target e = n \<and> map_of (layer st) (source e) = Some (l - 1))"
    and L3: "\<And>e. e \<in> set es \<Longrightarrow> source e \<in> set (queue st) \<Longrightarrow>
        \<exists>l l'. map_of (layer st) (source e) = Some l \<and>
                map_of (layer st) (target e) = Some l' \<and> l + 1 \<le> l'"
    and L4: "\<And>n. n \<in> set (queue st) \<Longrightarrow> map_of (layer st) n \<noteq> None"
    unfolding kahn_inv_def t by blast+
  from n all L4 obtain l where l: "map_of (layer st) n = Some l" by blast
  have a: "l = 0" if "\<forall>e\<in>set es. target e \<noteq> n"
    using L2 [OF l] that by blast
  have b: "\<exists>e\<in>set es. target e = n \<and> map_of (layer st) (source e) = Some (l - 1)"
    if "\<exists>e\<in>set es. target e = n"
    using L2 [OF l] that by blast
  have c: "\<exists>lp. map_of (layer st) (source e) = Some lp \<and> lp + 1 \<le> l"
    if "e \<in> set es" "target e = n" for e
  proof -
    from that(1) valid all have "source e \<in> set (queue st)" by blast
    from L3 [OF that(1) this] that(2) l show ?thesis by auto
  qed
  from l a b c show ?thesis by blast
qed


lemma Max_pred_layers:
  fixes l :: int
  assumes ex: "\<exists>e\<in>set es. target e = n \<and> m (source e) = Some (l - 1)"
    and ub: "\<forall>e\<in>set es. target e = n \<longrightarrow> (\<exists>lp. m (source e) = Some lp \<and> lp + 1 \<le> l)"
  shows "l = Max ((\<lambda>lp. lp + 1) ` {lp. \<exists>e\<in>set es. target e = n \<and> m (source e) = Some lp})"
proof -
  let ?P = "{lp. \<exists>e\<in>set es. target e = n \<and> m (source e) = Some lp}"
  have "?P \<subseteq> (\<lambda>e. the (m (source e))) ` set es" by force
  moreover have "finite ((\<lambda>e. the (m (source e))) ` set es)" by simp
  ultimately have "finite ?P" by (rule finite_subset)
  then have f: "finite ((\<lambda>lp. lp + 1) ` ?P)" by (rule finite_imageI)
  have "Max ((\<lambda>lp. lp + 1) ` ?P) = l"
  proof (rule Max_eqI [OF f])
    fix y assume "y \<in> (\<lambda>lp. lp + 1) ` ?P"
    then obtain lp e where "y = lp + 1" "e \<in> set es" "target e = n" "m (source e) = Some lp"
      by blast
    with ub show "y \<le> l" by fastforce
  next
    from ex have "l - 1 \<in> ?P" by blast
    then have "(l - 1) + 1 \<in> (\<lambda>lp. lp + 1) ` ?P" by (rule imageI)
    then show "l \<in> (\<lambda>lp. lp + 1) ` ?P" by simp
  qed
  then show ?thesis by simp
qed

lemma group_entries_sets:
  assumes "\<forall>p\<in>set lay. 0 \<le> snd p \<and> nat (snd p) < length lns0"
    and "group_entries lns0 lay = Inr lns" and "i < length lns0"
  shows "set (lns ! i) = set (lns0 ! i) \<union> {k. (k, int i) \<in> set lay}"
  using assms
proof (induction lay arbitrary: lns0)
  case Nil
  then show ?case by simp
next
  case (Cons p lay)
  obtain k l where p: "p = (k, l)" by (cases p)
  let ?lns1 = "lns0[nat l := lns0 ! nat l @ [k]]"
  from Cons.prems(1) p have r: "0 \<le> l" "nat l < length lns0" by auto
  then have s: "push_layer lns0 (k, l) = Inr ?lns1" by (simp add: push_layer_def)
  with Cons.prems(2) have g: "group_entries ?lns1 lay = Inr lns" by (simp add: p)
  have "\<forall>p\<in>set lay. 0 \<le> snd p \<and> nat (snd p) < length ?lns1"
    using Cons.prems(1) by simp
  from Cons.IH [OF this g] Cons.prems(3)
  have "set (lns ! i) = set (?lns1 ! i) \<union> {k. (k, int i) \<in> set lay}" by simp
  moreover have "set (?lns1 ! i) = set (lns0 ! i) \<union> (if l = int i then {k} else {})"
    using r Cons.prems(3) by (auto simp: nth_list_update)
  ultimately show ?case by (auto simp: p)
qed

lemma layerNodes_by_layer:
  assumes "ordered_layers ns es = Inr (pred, succ, maxL, lns)"
    and "final_layers ns es = Inr lay" and "i < length lns"
  shows "set (lns ! i) = {k. map_of lay k = Some (int i)}"
proof -
  obtain pred' succ' where b: "build_adjacency ns es = (pred', succ')"
    by (cases "build_adjacency ns es")
  have adj: "adjacency_of (node_id ` set ns) es (pred', succ')"
    using adjacency_of_build [of ns es] by (simp add: b)
  from assms(2) have la: "layer_assignment ns pred' succ' = Inr lay"
    by (simp add: final_layers_def b)
  with layer_assignment_ok [OF adj] have lo: "layering_of (node_id ` set ns) lay" by simp
  define m where "m = Max (set (map snd lay))"
  from group_by_layer_ok [OF lo] obtain lns0 where
    g: "group_by_layer m lay = Inr lns0" "length lns0 = nat (m + 1)"
    unfolding m_def by blast
  have mm: "Max (snd ` set lay) = m" by (simp add: m_def)
  from assms(1) have e: "maxL = m" "lns = crossing_minimization pred' succ' m lns0"
    by (auto simp: ordered_layers_def b la g mm Let_def)
  have sn: "same_nodes lns0 lns" unfolding e by (rule same_nodes_crossing)
  with assms(3) have i: "i < length lns0" by (simp add: same_nodes_def)
  from sn i have "mset (lns ! i) = mset (lns0 ! i)" by (simp add: same_nodes_def)
  then have s1: "set (lns ! i) = set (lns0 ! i)" by (rule mset_eq_setD)
  have rng: "\<forall>p\<in>set lay. 0 \<le> snd p \<and> nat (snd p) < length (replicate (nat (m + 1)) ([] :: 'a list))"
  proof
    fix p assume p: "p \<in> set lay"
    then have "snd p \<le> m" unfolding m_def by (intro Max_ge) auto
    moreover from lo p have "0 \<le> snd p" by (simp add: layering_of_def)
    ultimately show "0 \<le> snd p \<and> nat (snd p) < length (replicate (nat (m + 1)) ([] :: 'a list))"
      by simp
  qed
  from g(1) have ge: "group_entries (replicate (nat (m + 1)) []) lay = Inr lns0"
    by (simp add: group_by_layer_def)
  from i g(2) have "i < length (replicate (nat (m + 1)) ([] :: 'a list))" by simp
  from group_entries_sets [OF rng ge this] i g(2)
  have "set (lns0 ! i) = {k. (k, int i) \<in> set lay}" by simp
  moreover from lo have "distinct (map fst lay)" by (simp add: layering_of_def)
  ultimately show ?thesis using s1 by simp
qed

definition repeated_root :: "string graph" where
  "repeated_root =
     \<lparr>nodes = [node_of ''A'' ''op'', node_of ''A'' ''op'', node_of ''D'' ''op'',
               node_of ''B'' ''op'', node_of ''C'' ''op'', node_of ''E'' ''op''],
      edges = [edge_of ''D'' ''B'', edge_of ''A'' ''C'', edge_of ''B'' ''C'',
               edge_of ''C'' ''E'']\<rparr>"

definition repeated_root_rank :: "string \<Rightarrow> nat" where
  "repeated_root_rank k =
     (if k = ''E'' then 0 else if k = ''C'' then 1 else if k = ''B'' then 2 else 3)"

text \<open>
  Claim C1, as stated, fails. The graph \<open>repeated_root\<close> has no cycle and every edge joins
  listed nodes, but the root \<open>A\<close> is listed twice. It is queued and processed twice, the
  in-degree of \<open>C\<close> drops to 0 before its predecessor \<open>B\<close> has been processed, and \<open>E\<close> is
  given layer 2 from \<open>C\<close> before \<open>C\<close> itself moves to layer 2: in the end \<open>C\<close> and \<open>E\<close>
  are both on layer 2 although \<open>C \<rightarrow> E\<close> is an edge.
\<close>

theorem repeated_id_breaks_longest_path:
  "acyclic ((\<lambda>e. (source e, target e)) ` set (edges repeated_root)) \<and>
   source ` set (edges repeated_root) \<union> target ` set (edges repeated_root)
     \<subseteq> node_id ` set (nodes repeated_root) \<and>
   final_layers (nodes repeated_root) (edges repeated_root) =
     Inr [(''A'', 0), (''D'', 0), (''C'', 2), (''B'', 1), (''E'', 2)] \<and>
   edge_of ''C'' ''E'' \<in> set (edges repeated_root) \<and>
   map_of [(''A'', 0 :: int), (''D'', 0), (''C'', 2), (''B'', 1), (''E'', 2)] ''C'' = Some 2 \<and>
   map_of [(''A'', 0 :: int), (''D'', 0), (''C'', 2), (''B'', 1), (''E'', 2)] ''E'' = Some 2"
proof -
  have "acyclic ((\<lambda>e. (source e, target e)) ` set (edges repeated_root))"
    by (rule acyclicI_order [where f = repeated_root_rank])
       (auto simp: repeated_root_def edge_of_def repeated_root_rank_def)
  moreover have "source ` set (edges repeated_root) \<union> target ` set (edges repeated_root)
      \<subseteq> node_id ` set (nodes repeated_root)"
    by (simp add: repeated_root_def edge_of_def node_of_def)
  moreover have "final_layers (nodes repeated_root) (edges repeated_root) =
      Inr [(''A'', 0), (''D'', 0), (''C'', 2), (''B'', 1), (''E'', 2)]"
    by code_simp
  moreover have "edge_of ''C'' ''E'' \<in> set (edges repeated_root)"
    by (simp add: repeated_root_def)
  ultimately show ?thesis by simp
qed

text \<open>
  Claim C1, amended. For a graph whose node ids are pairwise distinct (a node has a unique
  identifier), whose edges all join existing nodes and which has no cycle, the layer map
  after the traversal and the fallback loop gives every node a layer \<open>l \<ge> 0\<close>; \<open>l\<close> is 0
  when the node has no incoming edge and otherwise the maximum of \<open>layer p + 1\<close> over the
  sources \<open>p\<close> of its incoming edges. The returned \<^verbatim>\<open>layerNodes[i]\<close> holds exactly the
  ids of layer \<open>i\<close>.
\<close>

theorem layers_are_longest_paths:
  assumes dist: "distinct (map node_id (nodes g))"
    and valid: "\<forall>e\<in>set (edges g). source e \<in> node_id ` set (nodes g) \<and>
                                   target e \<in> node_id ` set (nodes g)"
    and acyc: "acyclic ((\<lambda>e. (source e, target e)) ` set (edges g))"
  shows "\<exists>lay r. final_layers (nodes g) (edges g) = Inr lay \<and>
     (\<forall>n\<in>set (nodes g). \<exists>l. map_of lay (node_id n) = Some l \<and> 0 \<le> l \<and>
        l = (if \<forall>e\<in>set (edges g). target e \<noteq> node_id n then 0
             else Max ((\<lambda>lp. lp + 1) `
                    {lp. \<exists>e\<in>set (edges g). target e = node_id n \<and>
                                             map_of lay (source e) = Some lp}))) \<and>
     computeLayout g = Inr r \<and>
     (\<forall>i<length (layerNodes r). set (layerNodes r ! i) = {k. map_of lay k = Some (int i)})"
proof -
  let ?ns = "nodes g" and ?es = "edges g"
  let ?V = "node_id ` set ?ns"
  obtain pred succ where b: "build_adjacency ?ns ?es = (pred, succ)"
    by (cases "build_adjacency ?ns ?es")
  have adj: "adjacency_of ?V ?es (pred, succ)"
    using adjacency_of_build [of ?ns ?es] by (simp add: b)
  from kahn_inv_init [OF adj dist valid] obtain st0 where
    st0: "init_kahn ?ns pred = Inr st0" "kahn_inv ?V ?es 0 st0" by auto
  from init_kahn_ok [OF adj subset_refl] st0(1) have ok0: "kahn_ok ?V st0" by auto
  from bfs_kahn_inv [OF adj valid st0(2)] obtain st h where
    st: "bfs succ 0 st0 = Inr st" "length (queue st) \<le> h" "kahn_inv ?V ?es h st" by auto
  from bfs_kahn_ok [OF adj ok0, of 0] st(1) have ok: "kahn_ok ?V st" by auto
  define lay where "lay = not_reached ?ns (layer st)"
  have fl: "final_layers ?ns ?es = Inr lay"
    by (simp add: final_layers_def b layer_assignment_def st0(1) st(1) lay_def)
  note fin = kahn_inv_final [OF valid acyc st(3) st(2)]
  have same: "map_of lay k = map_of (layer st) k" if "k \<in> ?V" for k
  proof -
    from fin [OF that] obtain l where "map_of (layer st) k = Some l" by blast
    with that show ?thesis by (simp add: lay_def map_of_not_reached)
  qed
  have src: "map_of lay (source e) = map_of (layer st) (source e)" if "e \<in> set ?es" for e
    using that valid by (intro same) blast
  have "\<exists>l. map_of lay (node_id n) = Some l \<and> 0 \<le> l \<and>
        l = (if \<forall>e\<in>set ?es. target e \<noteq> node_id n then 0
             else Max ((\<lambda>lp. lp + 1) `
                    {lp. \<exists>e\<in>set ?es. target e = node_id n \<and> map_of lay (source e) = Some lp}))"
    if n: "n \<in> set ?ns" for n
  proof -
    from n have k: "node_id n \<in> ?V" by simp
    from fin [OF k] obtain l where
      l: "map_of (layer st) (node_id n) = Some l"
      and r: "(\<forall>e\<in>set ?es. target e \<noteq> node_id n) \<longrightarrow> l = 0"
      and ex: "(\<exists>e\<in>set ?es. target e = node_id n) \<longrightarrow>
             (\<exists>e\<in>set ?es. target e = node_id n \<and> map_of (layer st) (source e) = Some (l - 1))"
      and ub: "\<forall>e\<in>set ?es. target e = node_id n \<longrightarrow>
             (\<exists>lp. map_of (layer st) (source e) = Some lp \<and> lp + 1 \<le> l)"
      by blast
    from l have "(node_id n, l) \<in> set (layer st)" by (rule map_of_SomeD)
    with ok have nonneg: "0 \<le> l" by (auto simp: kahn_ok_def)
    have "l = (if \<forall>e\<in>set ?es. target e \<noteq> node_id n then 0
             else Max ((\<lambda>lp. lp + 1) `
                    {lp. \<exists>e\<in>set ?es. target e = node_id n \<and> map_of lay (source e) = Some lp}))"
    proof (cases "\<forall>e\<in>set ?es. target e \<noteq> node_id n")
      case True
      with r show ?thesis by simp
    next
      case False
      with ex have ex': "\<exists>e\<in>set ?es. target e = node_id n \<and> map_of lay (source e) = Some (l - 1)"
        using src by auto
      from ub have ub': "\<forall>e\<in>set ?es. target e = node_id n \<longrightarrow>
             (\<exists>lp. map_of lay (source e) = Some lp \<and> lp + 1 \<le> l)"
        using src by auto
      note Max_pred_layers [of ?es "node_id n" "map_of lay" l, OF ex' ub']
      then show ?thesis by (simp only: False if_False)
    qed
    with l nonneg same [OF k] show ?thesis by simp
  qed
  then have main: "\<forall>n\<in>set ?ns. \<exists>l. map_of lay (node_id n) = Some l \<and> 0 \<le> l \<and>
        l = (if \<forall>e\<in>set ?es. target e \<noteq> node_id n then 0
             else Max ((\<lambda>lp. lp + 1) `
                    {lp. \<exists>e\<in>set ?es. target e = node_id n \<and> map_of lay (source e) = Some lp}))"
    by blast
  have "\<exists>r. computeLayout g = Inr r \<and>
     (\<forall>i<length (layerNodes r). set (layerNodes r ! i) = {k. map_of lay k = Some (int i)})"
  proof (cases "?ns = []")
    case True
    then show ?thesis by (simp add: computeLayout_def)
  next
    case False
    from computeLayout_nonempty [OF False] obtain pred' succ' maxL lns where
      o: "ordered_layers ?ns ?es = Inr (pred', succ', maxL, lns)"
      and c: "computeLayout g =
       Inr \<lparr>positions = build_positions (new_Map (map (\<lambda>n. (node_id n, n)) (nodes g)))
                          (assign_y pred' maxL lns) maxL lns,
            layerNodes = lns, maxLayer = maxL,
            canvasW = Some (PAD * 2 + (of_int maxL + 1) * H_STEP),
            canvasH = Some (js_add (Math_max (map (\<lambda>p. node_bottom (snd p))
                        (build_positions (new_Map (map (\<lambda>n. (node_id n, n)) (nodes g)))
                          (assign_y pred' maxL lns) maxL lns))) (Num PAD))\<rparr>"
      by blast
    have "\<forall>i<length lns. set (lns ! i) = {k. map_of lay k = Some (int i)}"
      using layerNodes_by_layer [OF o fl] by blast
    then show ?thesis unfolding c by simp
  qed
  with fl main show ?thesis by blast
qed

definition diamond_rank :: "string \<Rightarrow> nat" where
  "diamond_rank k = (if k = ''A'' then 2 else if k = ''D'' then 0 else 1)"

theorem layers_are_longest_paths_witness:
  "distinct (map node_id (nodes diamond)) \<and>
   source ` set (edges diamond) \<union> target ` set (edges diamond) \<subseteq> node_id ` set (nodes diamond) \<and>
   acyclic ((\<lambda>e. (source e, target e)) ` set (edges diamond)) \<and>
   final_layers (nodes diamond) (edges diamond) =
     Inr [(''A'', 0), (''B'', 1), (''C'', 1), (''D'', 2)] \<and>
   (2 :: int) = Max ((\<lambda>lp. lp + 1) `
       {lp. \<exists>e\<in>set (edges diamond). target e = ''D'' \<and>
              map_of [(''A'', 0), (''B'', 1), (''C'', 1), (''D'', 2)] (source e) = Some lp})"
proof -
  have h1: "distinct (map node_id (nodes diamond))"
    by (simp add: diamond_def node_of_def)
  have h2: "\<forall>e\<in>set (edges diamond). source e \<in> node_id ` set (nodes diamond) \<and>
                                   target e \<in> node_id ` set (nodes diamond)"
    by (simp add: diamond_def node_of_def edge_of_def)
  have h3: "acyclic ((\<lambda>e. (source e, target e)) ` set (edges diamond))"
    by (rule acyclicI_order [where f = diamond_rank])
       (auto simp: diamond_def edge_of_def diamond_rank_def)
  have e: "final_layers (nodes diamond) (edges diamond) =
     Inr [(''A'', 0), (''B'', 1), (''C'', 1), (''D'', 2)]"
    by code_simp
  have d: "node_of ''D'' ''outcast'' \<in> set (nodes diamond)" by (simp add: diamond_def)
  have t: "\<not> (\<forall>e\<in>set (edges diamond). target e \<noteq> ''D'')"
    by (simp add: diamond_def edge_of_def)
  from layers_are_longest_paths [OF h1 h2 h3] obtain lay where
    l: "final_layers (nodes diamond) (edges diamond) = Inr lay"
    and m: "\<forall>n\<in>set (nodes diamond). \<exists>l. map_of lay (node_id n) = Some l \<and> 0 \<le> l \<and>
        l = (if \<forall>e\<in>set (edges diamond). target e \<noteq> node_id n then 0
             else Max ((\<lambda>lp. lp + 1) `
                    {lp. \<exists>e\<in>set (edges diamond). target e = node_id n \<and>
                                             map_of lay (source e) = Some lp}))"
    by blast
  from l e have lay: "lay = [(''A'', 0), (''B'', 1), (''C'', 1), (''D'', 2)]" by simp
  from m d have "\<exists>l. map_of lay (node_id (node_of ''D'' ''outcast'')) = Some l \<and> 0 \<le> l \<and>
        l = (if \<forall>e\<in>set (edges diamond). target e \<noteq> node_id (node_of ''D'' ''outcast'') then 0
             else Max ((\<lambda>lp. lp + 1) `
                    {lp. \<exists>e\<in>set (edges diamond). target e = node_id (node_of ''D'' ''outcast'') \<and>
                                             map_of lay (source e) = Some lp}))"
    by (rule bspec)
  then have "(2 :: int) = Max ((\<lambda>lp. lp + 1) `
       {lp. \<exists>e\<in>set (edges diamond). target e = ''D'' \<and> map_of lay (source e) = Some lp})"
    using t by (simp add: node_of_def lay)
  moreover have "source ` set (edges diamond) \<union> target ` set (edges diamond)
      \<subseteq> node_id ` set (nodes diamond)"
    using h2 by auto
  ultimately show ?thesis using h1 h3 e unfolding lay by blast
qed

section \<open>Canvas size\<close>










section \<open>Determinism\<close>

lemma fl_neg_iff: "fl x < 0 \<longleftrightarrow> x < 0"
proof (cases "x < 0")
  case True
  then have x: "0 < - x" by simp
  define u :: rat where "u = 2 powi (ilog2 \<bar>x\<bar> - 52)"
  have u: "0 < u" by (simp add: u_def)
  from x have a: "\<bar>x\<bar> = - x" by simp
  from ilog2_bounds(1) [OF x] have "2 powi (ilog2 \<bar>x\<bar>) \<le> - x" by (simp add: a)
  moreover have "(2 :: rat) powi (ilog2 \<bar>x\<bar>) = 2 powi 52 * u"
    unfolding u_def by (rule pow_split)
  ultimately have "2 powi 52 \<le> - x / u" using u by (simp add: field_simps)
  then have "x / u \<le> - 1" by simp
  with round_even_bounds(1) [of "x / u"] have "(of_int (round_even (x / u)) :: rat) < 0"
    by simp
  with u have "of_int (round_even (x / u)) * u < 0" by (simp add: mult_neg_pos)
  with True show ?thesis by (simp add: fl_def Let_def u_def)
next
  case False
  show ?thesis
  proof (cases "x = 0")
    case True
    then show ?thesis by (simp add: fl_def)
  next
    case ne: False
    with False have "0 < x" by simp
    with fl_pos_iff [of x] have "0 < fl x" by blast
    then have "\<not> fl x < 0" by linarith
    with False show ?thesis by blast
  qed
qed

text \<open>
  The sign of a number returned by a comparison function, with \<^verbatim>\<open>NaN\<close> read as \<open>+0\<close>.
\<close>

fun negative :: "num \<Rightarrow> bool" where
  "negative (Num a) = (a < 0)"
| "negative Infinity = False"
| "negative NegInfinity = True"
| "negative NaN = False"

text \<open>
  The layout function with the sort of the engine as a parameter: \<open>srt cmp xs\<close> is the
  array \<open>xs\<close> after \<^verbatim>\<open>xs.sort(cmp)\<close>.
\<close>

definition sort_layer_with ::
  "(('a \<Rightarrow> 'a \<Rightarrow> num) \<Rightarrow> 'a list \<Rightarrow> 'a list) \<Rightarrow> ('a, 'a list) js_map \<Rightarrow> 'a list \<Rightarrow> 'a list \<Rightarrow> 'a list" where
  "sort_layer_with srt neighbors adjacent ids =
     (let pos = index_Map adjacent
      in srt (\<lambda>a b. js_sub (baryPos a neighbors pos) (baryPos b neighbors pos)) ids)"

definition forward_pass_with ::
  "(('a \<Rightarrow> 'a \<Rightarrow> num) \<Rightarrow> 'a list \<Rightarrow> 'a list) \<Rightarrow> ('a, 'a list) js_map \<Rightarrow> int \<Rightarrow> 'a list list \<Rightarrow> 'a list list" where
  "forward_pass_with srt pred maxL lns =
     foldl (\<lambda>ls l. ls[l := sort_layer_with srt pred (ls ! (l - 1)) (ls ! l)]) lns [1..<nat (maxL + 1)]"

definition backward_pass_with ::
  "(('a \<Rightarrow> 'a \<Rightarrow> num) \<Rightarrow> 'a list \<Rightarrow> 'a list) \<Rightarrow> ('a, 'a list) js_map \<Rightarrow> int \<Rightarrow> 'a list list \<Rightarrow> 'a list list" where
  "backward_pass_with srt succ maxL lns =
     foldl (\<lambda>ls l. ls[l := sort_layer_with srt succ (ls ! (l + 1)) (ls ! l)]) lns (rev [0..<nat maxL])"

definition crossing_minimization_with ::
  "(('a \<Rightarrow> 'a \<Rightarrow> num) \<Rightarrow> 'a list \<Rightarrow> 'a list) \<Rightarrow> ('a, 'a list) js_map \<Rightarrow> ('a, 'a list) js_map \<Rightarrow> int
     \<Rightarrow> 'a list list \<Rightarrow> 'a list list" where
  "crossing_minimization_with srt pred succ maxL lns =
     forward_pass_with srt pred maxL
       (backward_pass_with srt succ maxL (forward_pass_with srt pred maxL lns))"

definition ordered_layers_with ::
  "(('a \<Rightarrow> 'a \<Rightarrow> num) \<Rightarrow> 'a list \<Rightarrow> 'a list) \<Rightarrow> 'a node list \<Rightarrow> 'a edge list
     \<Rightarrow> failure + (('a, 'a list) js_map \<times> ('a, 'a list) js_map \<times> int \<times> 'a list list)" where
  "ordered_layers_with srt ns es =
     (case build_adjacency ns es of (pred, succ) \<Rightarrow>
        (case layer_assignment ns pred succ of
           Inl e \<Rightarrow> Inl e
         | Inr lay \<Rightarrow>
            (let maxL = Max (set (map snd lay))
             in case group_by_layer maxL lay of
                  Inl e \<Rightarrow> Inl e
                | Inr lns \<Rightarrow>
                   Inr (pred, succ, maxL, crossing_minimization_with srt pred succ maxL lns))))"

definition computeLayout_with ::
  "(('a \<Rightarrow> 'a \<Rightarrow> num) \<Rightarrow> 'a list \<Rightarrow> 'a list) \<Rightarrow> ('a, 'z) graph_scheme \<Rightarrow> failure + 'a layout" where
  "computeLayout_with srt g =
     (if length (nodes g) = 0 then
        Inr \<lparr>positions = [], layerNodes = [], maxLayer = 0, canvasW = None, canvasH = None\<rparr>
      else
        (case ordered_layers_with srt (nodes g) (edges g) of
           Inl e \<Rightarrow> Inl e
         | Inr (pred, succ, maxL, lns) \<Rightarrow>
            (case pull_toward_successors succ maxL lns (assign_y pred maxL lns) of
               Inl e \<Rightarrow> Inl e
             | Inr nodeY \<Rightarrow>
                (let nodeMap = new_Map (map (\<lambda>n. (node_id n, n)) (nodes g));
                     ps = build_positions nodeMap nodeY maxL lns;
                     maxNodeBottom = Math_max (map (\<lambda>p. node_bottom (snd p)) ps)
                 in Inr \<lparr>positions = ps, layerNodes = lns, maxLayer = maxL,
                         canvasW = Some (PAD * 2 + (of_int maxL + 1) * H_STEP),
                         canvasH = Some (js_add maxNodeBottom (Num PAD))\<rparr>))))"

text \<open>
  What ECMAScript requires of \<^verbatim>\<open>Array.prototype.sort\<close>, for the comparison functions of
  the sweeps (the difference of a key of the two elements, the key a number or
  \<open>Infinity\<close>): no element stands behind one that it compares less than, and elements
  that compare equal (the difference is zero, or \<^verbatim>\<open>NaN\<close> and read as \<open>+0\<close>) keep their
  order.
\<close>

definition conforming :: "(('a \<Rightarrow> 'a \<Rightarrow> num) \<Rightarrow> 'a list \<Rightarrow> 'a list) \<Rightarrow> bool" where
  "conforming srt \<longleftrightarrow>
     (\<forall>f xs. (\<forall>k. proper (f k)) \<longrightarrow>
        (\<forall>i j. i < j \<and> j < length (srt (\<lambda>a b. js_sub (f a) (f b)) xs) \<longrightarrow>
           \<not> negative (js_sub (f (srt (\<lambda>a b. js_sub (f a) (f b)) xs ! j))
                               (f (srt (\<lambda>a b. js_sub (f a) (f b)) xs ! i)))) \<and>
        (\<forall>a. filter (\<lambda>k. \<not> positive (js_sub (f a) (f k)) \<and> \<not> negative (js_sub (f a) (f k)))
                (srt (\<lambda>a b. js_sub (f a) (f b)) xs) =
              filter (\<lambda>k. \<not> positive (js_sub (f a) (f k)) \<and> \<not> negative (js_sub (f a) (f k))) xs))"

lemma negative_swap:
  "proper x \<Longrightarrow> proper y \<Longrightarrow> negative (js_sub y x) \<longleftrightarrow> positive (js_sub x y)"
  by (auto simp: proper_def fl_neg_iff)

lemma same_rank:
  "proper x \<Longrightarrow> proper y \<Longrightarrow>
   \<not> positive (js_sub x y) \<and> \<not> negative (js_sub x y) \<longleftrightarrow> y = x"
  by (auto simp: proper_def fl_neg_iff)

lemma conforming_js_sort: "conforming js_sort"
  unfolding conforming_def
proof (intro allI impI conjI)
  fix f :: "'a \<Rightarrow> num" and xs :: "'a list" and i j
  assume p: "\<forall>k. proper (f k)"
  let ?ys = "js_sort (\<lambda>a b. js_sub (f a) (f b)) xs"
  assume ij: "i < j \<and> j < length ?ys"
  have "sorted_wrt (\<lambda>a b. below (f a) (f b)) ?ys" by (rule sorted_js_sort) (simp add: p)
  with ij have "below (f (?ys ! i)) (f (?ys ! j))" by (simp add: sorted_wrt_iff_nth_less)
  then show "\<not> negative (js_sub (f (?ys ! j)) (f (?ys ! i)))"
    using p by (simp add: below_def negative_swap)
next
  fix f :: "'a \<Rightarrow> num" and xs :: "'a list" and a
  assume p: "\<forall>k. proper (f k)"
  let ?ys = "js_sort (\<lambda>a b. js_sub (f a) (f b)) xs"
  have e: "(\<lambda>k. \<not> positive (js_sub (f a) (f k)) \<and> \<not> negative (js_sub (f a) (f k))) = (\<lambda>k. f k = f a)"
    using p by (simp add: same_rank)
  show "filter (\<lambda>k. \<not> positive (js_sub (f a) (f k)) \<and> \<not> negative (js_sub (f a) (f k))) ?ys =
        filter (\<lambda>k. \<not> positive (js_sub (f a) (f k)) \<and> \<not> negative (js_sub (f a) (f k))) xs"
    unfolding e by (rule stable_js_sort)
qed

lemma conforming_sort_layer:
  assumes "conforming srt"
  shows "sort_layer_with srt nb adjacent ids = sort_layer nb adjacent ids"
proof -
  let ?f = "\<lambda>k. baryPos k nb (index_Map adjacent)"
  let ?ys = "srt (\<lambda>a b. js_sub (?f a) (?f b)) ids"
  have p: "\<forall>k. proper (?f k)" by (simp add: baryPos_proper)
  note c = assms [unfolded conforming_def, THEN spec [where x = ?f], THEN spec [where x = ids],
    THEN mp, OF p]
  from c have
    o: "\<forall>i j. i < j \<and> j < length ?ys \<longrightarrow> \<not> negative (js_sub (?f (?ys ! j)) (?f (?ys ! i)))"
    by (rule conjunct1)
  from c have
    s: "\<forall>a. filter (\<lambda>k. \<not> positive (js_sub (?f a) (?f k)) \<and> \<not> negative (js_sub (?f a) (?f k))) ?ys =
              filter (\<lambda>k. \<not> positive (js_sub (?f a) (?f k)) \<and> \<not> negative (js_sub (?f a) (?f k))) ids"
    by (rule conjunct2)
  have "?ys = sort_layer nb adjacent ids"
  proof (rule sort_layer_unique)
    show "sorted_wrt (\<lambda>a b. below (?f a) (?f b)) ?ys"
      unfolding sorted_wrt_iff_nth_less
    proof (intro allI impI)
      fix i j assume "i < j" "j < length ?ys"
      with o have "\<not> negative (js_sub (?f (?ys ! j)) (?f (?ys ! i)))" by blast
      then show "below (?f (?ys ! i)) (?f (?ys ! j))"
        by (simp add: below_def negative_swap baryPos_proper)
    qed
    show "filter (\<lambda>k. ?f k = v) ?ys = filter (\<lambda>k. ?f k = v) ids" for v
    proof (cases "\<exists>a. ?f a = v")
      case True
      then obtain a where a: "?f a = v" ..
      have "(\<not> positive (js_sub (?f a) (?f k)) \<and> \<not> negative (js_sub (?f a) (?f k))) = (?f k = ?f a)"
        for k by (rule same_rank) (rule baryPos_proper)+
      then have e: "(\<lambda>k. \<not> positive (js_sub (?f a) (?f k)) \<and> \<not> negative (js_sub (?f a) (?f k)))
                = (\<lambda>k. ?f k = v)"
        by (simp only: a)
      from s have "filter (\<lambda>k. \<not> positive (js_sub (?f a) (?f k)) \<and> \<not> negative (js_sub (?f a) (?f k))) ?ys =
              filter (\<lambda>k. \<not> positive (js_sub (?f a) (?f k)) \<and> \<not> negative (js_sub (?f a) (?f k))) ids"
        by (rule spec)
      then show ?thesis unfolding e .
    next
      case False
      then have "(\<lambda>k. ?f k = v) = (\<lambda>k. False)" by simp
      then show ?thesis by simp
    qed
  qed
  then show ?thesis by (simp add: sort_layer_with_def Let_def)
qed

lemma conforming_computeLayout:
  assumes "conforming srt"
  shows "computeLayout_with srt g = computeLayout g"
proof -
  have s: "sort_layer_with srt = sort_layer"
    by (intro ext) (rule conforming_sort_layer [OF assms])
  have c: "crossing_minimization_with srt = crossing_minimization"
    by (intro ext)
       (simp add: crossing_minimization_with_def crossing_minimization_def forward_pass_with_def
          forward_pass_def backward_pass_with_def backward_pass_def s)
  have o: "ordered_layers_with srt = ordered_layers"
    unfolding ordered_layers_with_def [abs_def] ordered_layers_def [abs_def] c by (rule refl)
  show ?thesis unfolding computeLayout_with_def computeLayout_def o by (rule refl)
qed

text \<open>
  A second sort: insertion from the left, every element behind those it does not compare
  less than.
\<close>

fun insert_behind :: "('a \<Rightarrow> 'a \<Rightarrow> num) \<Rightarrow> 'a \<Rightarrow> 'a list \<Rightarrow> 'a list" where
  "insert_behind cmp a [] = [a]"
| "insert_behind cmp a (b # bs) =
     (if negative (cmp a b) then a # b # bs else b # insert_behind cmp a bs)"

definition left_sort :: "('a \<Rightarrow> 'a \<Rightarrow> num) \<Rightarrow> 'a list \<Rightarrow> 'a list" where
  "left_sort cmp xs = foldl (\<lambda>acc a. insert_behind cmp a acc) [] xs"

lemma set_insert_behind: "set (insert_behind cmp a bs) = insert a (set bs)"
  by (induction bs) auto

lemma sorted_insert_behind:
  assumes "\<And>k. proper (f k)"
    and "sorted_wrt (\<lambda>a b. below (f a) (f b)) bs"
  shows "sorted_wrt (\<lambda>a b. below (f a) (f b)) (insert_behind (\<lambda>a b. js_sub (f a) (f b)) a bs)"
  using assms(2)
proof (induction bs)
  case Nil
  show ?case by simp
next
  case (Cons b bs)
  show ?case
  proof (cases "negative (js_sub (f a) (f b))")
    case True
    then have "positive (js_sub (f b) (f a))" by (simp add: negative_swap assms(1))
    then have ab: "below (f a) (f b)" by (rule below_total [OF assms(1) assms(1)])
    have "below (f a) (f x)" if "x \<in> set bs" for x
    proof -
      from Cons.prems that have "below (f b) (f x)" by simp
      with ab show ?thesis by (rule below_trans [OF assms(1) assms(1) assms(1)])
    qed
    with Cons.prems True ab show ?thesis by simp
  next
    case False
    then have "below (f b) (f a)" by (simp add: below_def negative_swap assms(1))
    with Cons False show ?thesis by (auto simp: set_insert_behind)
  qed
qed

lemma stable_insert_behind:
  assumes "\<And>k. proper (f k)"
    and "sorted_wrt (\<lambda>a b. below (f a) (f b)) bs"
  shows "filter (\<lambda>k. f k = v) (insert_behind (\<lambda>a b. js_sub (f a) (f b)) a bs) =
         filter (\<lambda>k. f k = v) (bs @ [a])"
  using assms(2)
proof (induction bs)
  case Nil
  show ?case by simp
next
  case (Cons b bs)
  show ?case
  proof (cases "negative (js_sub (f a) (f b))")
    case True
    then have ba: "positive (js_sub (f b) (f a))" by (simp add: negative_swap assms(1))
    have "f x \<noteq> f a" if "x \<in> set (b # bs)" for x
    proof
      assume e: "f x = f a"
      from Cons.prems that have "below (f b) (f x)"
        by (auto simp: below_def not_positive_self)
      with ba e show False by (simp add: below_def)
    qed
    then have n: "f a = v \<Longrightarrow> \<forall>x\<in>set (b # bs). \<not> f x = v" by auto
    have c: "filter (\<lambda>k. f k = v) [a] @ filter (\<lambda>k. f k = v) (b # bs) =
             filter (\<lambda>k. f k = v) (b # bs) @ filter (\<lambda>k. f k = v) [a]"
    proof (cases "f a = v")
      case eq: True
      from n [OF eq] have "filter (\<lambda>k. f k = v) (b # bs) = []"
        by (simp only: filter_empty_conv)
      then show ?thesis by (simp only: append_Nil append_Nil2)
    next
      case False
      then show ?thesis by simp
    qed
    from True have "insert_behind (\<lambda>a b. js_sub (f a) (f b)) a (b # bs) = [a] @ (b # bs)" by simp
    then have "filter (\<lambda>k. f k = v) (insert_behind (\<lambda>a b. js_sub (f a) (f b)) a (b # bs)) =
               filter (\<lambda>k. f k = v) [a] @ filter (\<lambda>k. f k = v) (b # bs)"
      by (simp only: filter_append)
    also note c
    also have "filter (\<lambda>k. f k = v) (b # bs) @ filter (\<lambda>k. f k = v) [a] =
               filter (\<lambda>k. f k = v) ((b # bs) @ [a])"
      by (simp only: filter_append)
    finally show ?thesis .
  next
    case False
    with Cons show ?thesis by simp
  qed
qed

lemma left_sort_snoc:
  "left_sort cmp (xs @ [a]) = insert_behind cmp a (left_sort cmp xs)"
  by (simp add: left_sort_def)

lemma left_sort_ok:
  assumes "\<And>k. proper (f k)"
  shows "sorted_wrt (\<lambda>a b. below (f a) (f b)) (left_sort (\<lambda>a b. js_sub (f a) (f b)) xs) \<and>
         filter (\<lambda>k. f k = v) (left_sort (\<lambda>a b. js_sub (f a) (f b)) xs) = filter (\<lambda>k. f k = v) xs"
proof (induction xs rule: rev_induct)
  case Nil
  show ?case by (simp add: left_sort_def)
next
  case (snoc a xs)
  then have s: "sorted_wrt (\<lambda>a b. below (f a) (f b)) (left_sort (\<lambda>a b. js_sub (f a) (f b)) xs)"
    and e: "filter (\<lambda>k. f k = v) (left_sort (\<lambda>a b. js_sub (f a) (f b)) xs) = filter (\<lambda>k. f k = v) xs"
    by simp_all
  from sorted_insert_behind [OF assms s, of a] stable_insert_behind [OF assms s, of v a] e
  show ?case by (simp add: left_sort_snoc)
qed

lemma conforming_left_sort: "conforming left_sort"
  unfolding conforming_def
proof (intro allI impI conjI)
  fix f :: "'a \<Rightarrow> num" and xs :: "'a list" and i j
  assume p: "\<forall>k. proper (f k)"
  let ?ys = "left_sort (\<lambda>a b. js_sub (f a) (f b)) xs"
  assume ij: "i < j \<and> j < length ?ys"
  have "sorted_wrt (\<lambda>a b. below (f a) (f b)) ?ys"
    using left_sort_ok [of f, THEN conjunct1] p by simp
  with ij have "below (f (?ys ! i)) (f (?ys ! j))" by (simp add: sorted_wrt_iff_nth_less)
  then show "\<not> negative (js_sub (f (?ys ! j)) (f (?ys ! i)))"
    using p by (simp add: below_def negative_swap)
next
  fix f :: "'a \<Rightarrow> num" and xs :: "'a list" and a
  assume p: "\<forall>k. proper (f k)"
  let ?ys = "left_sort (\<lambda>a b. js_sub (f a) (f b)) xs"
  have e: "(\<lambda>k. \<not> positive (js_sub (f a) (f k)) \<and> \<not> negative (js_sub (f a) (f k))) = (\<lambda>k. f k = f a)"
    using p by (simp add: same_rank)
  show "filter (\<lambda>k. \<not> positive (js_sub (f a) (f k)) \<and> \<not> negative (js_sub (f a) (f k))) ?ys =
        filter (\<lambda>k. \<not> positive (js_sub (f a) (f k)) \<and> \<not> negative (js_sub (f a) (f k))) xs"
    unfolding e using left_sort_ok [of f, THEN conjunct2] p by simp
qed

text \<open>
  Claim C2. Two invocations on the same input return the same layout, hence the same
  position map entry for entry and the same canvas size, and they return one: the result
  depends on the node list and the edge list only (two graph objects may differ in any other
  field), and it does not depend on the sort of the engine that runs the invocation, the one
  built-in whose result ECMAScript leaves open in part. The function reads no state
  outside its argument; the maps iterate in insertion order; in the comparison of the
  sweeps \<^verbatim>\<open>Infinity - Infinity\<close> is \<^verbatim>\<open>NaN\<close>, which every engine reads as \<open>+0\<close>, and
  the order of elements that compare equal is fixed by the stability that ECMAScript
  requires. So any two sorts that meet the requirement give the layout computed with
  \<^const>\<open>js_sort\<close>.
\<close>

theorem layout_deterministic:
  fixes g :: "('a, 'y) graph_scheme" and g' :: "('a, 'z) graph_scheme"
  assumes "conforming srt" and "conforming srt'"
    and "nodes g = nodes g'" and "edges g = edges g'"
  shows "\<exists>r. computeLayout_with srt g = Inr r \<and> computeLayout_with srt' g' = Inr r \<and>
             computeLayout g = Inr r"
proof -
  from computeLayout_total [of g] obtain r where r: "computeLayout g = Inr r" ..
  have "computeLayout g' = computeLayout g"
    unfolding computeLayout_def assms(3,4) by (rule refl)
  with r conforming_computeLayout [OF assms(1), of g] conforming_computeLayout [OF assms(2), of g']
  show ?thesis by simp
qed


theorem layout_deterministic_witness:
  "conforming (js_sort :: (string \<Rightarrow> string \<Rightarrow> num) \<Rightarrow> string list \<Rightarrow> string list) \<and>
   conforming (left_sort :: (string \<Rightarrow> string \<Rightarrow> num) \<Rightarrow> string list \<Rightarrow> string list) \<and>
   nodes diamond = nodes (graph.extend diamond ''meta'') \<and>
   edges diamond = edges (graph.extend diamond ''meta'') \<and>
   computeLayout_with js_sort diamond = Inr diamond_layout \<and>
   computeLayout_with left_sort (graph.extend diamond ''meta'') = Inr diamond_layout \<and>
   computeLayout diamond = Inr diamond_layout"
proof -
  have h1: "conforming (js_sort :: (string \<Rightarrow> string \<Rightarrow> num) \<Rightarrow> string list \<Rightarrow> string list)"
    by (rule conforming_js_sort)
  have h2: "conforming (left_sort :: (string \<Rightarrow> string \<Rightarrow> num) \<Rightarrow> string list \<Rightarrow> string list)"
    by (rule conforming_left_sort)
  have h3: "nodes diamond = nodes (graph.extend diamond ''meta'')"
    by (simp add: graph.defs)
  have h4: "edges diamond = edges (graph.extend diamond ''meta'')"
    by (simp add: graph.defs)
  from layout_deterministic [OF h1 h2 h3 h4] obtain r where
    r: "computeLayout_with js_sort diamond = Inr r"
       "computeLayout_with left_sort (graph.extend diamond ''meta'') = Inr r"
       "computeLayout diamond = Inr r" by blast
  from r(3) computeLayout_diamond have "r = diamond_layout" by simp
  with r h1 h2 h3 h4 show ?thesis by (simp only: simp_thms)
qed

end
